theory Spec2Isabelle
  imports Complex_Main "HOL-Library.Multiset"
begin

section \<open>Shared types (topostreams/types.h)\<close>

text \<open>
  The error codes of the C interface. Every entry point returns one of them; the
  output arrays are passed by pointer and are modelled as part of the returned value.
\<close>

datatype TopoError =
    TOPO_SUCCESS
  | TOPO_ERROR_INVALID_ARGUMENT
  | TOPO_ERROR_CUDA_MALLOC
  | TOPO_ERROR_CUDA_MEMCPY
  | TOPO_ERROR_CUDA_KERNEL
  | TOPO_ERROR_CUDA_NOT_AVAILABLE
  | TOPO_ERROR_INTERNAL

text \<open>
  The CUDA runtime is the environment of the host functions: the number of devices, whether
  the j-th \<open>cudaMalloc\<close> and the j-th \<open>cudaMemcpy\<close>/\<open>cudaMemset\<close> of a call succeed, and
  whether \<open>cudaGetLastError\<close> reports a failed launch. A \<open>double\<close> is modelled as a real
  number (finite values, no rounding), a C \<open>int\<close> as an integer, a pointer to an array
  as an optional list (\<open>None\<close> is the null pointer).
\<close>

record cuda_env =
  device_count :: int
  malloc_ok :: "nat \<Rightarrow> bool"
  memcpy_ok :: "nat \<Rightarrow> bool"
  launch_ok :: bool
  uninit_real :: "nat \<Rightarrow> real"
  uninit_int :: "nat \<Rightarrow> int"
  schedule :: "(nat \<times> nat) list \<Rightarrow> (nat \<times> nat) list"
  host_malloc_ok :: bool

text \<open>
  \<open>uninit_real\<close> and \<open>uninit_int\<close> are the contents of freshly allocated device memory;
  \<open>schedule\<close> is the order in which the device runs the atomic sections of the threads of
  a launch (a list of pairs of block and thread index); \<open>host_malloc_ok\<close> says whether the
  checked \<open>malloc\<close> of the host succeeds. The environment \<open>ideal_env\<close> has one device, every
  call succeeds, and the threads run in launch order.
\<close>

definition ideal_env :: cuda_env where
  "ideal_env = \<lparr>device_count = 1, malloc_ok = (\<lambda>_. True), memcpy_ok = (\<lambda>_. True),
     launch_ok = True, uninit_real = (\<lambda>_. 0), uninit_int = (\<lambda>_. 0), schedule = (\<lambda>ts. ts),
     host_malloc_ok = True\<rparr>"

text \<open>\<open>cudaMemcpy\<close> of \<open>cnt\<close> elements from a device array into a host array.\<close>

definition memcpy_to_host :: "'a list \<Rightarrow> 'a list \<Rightarrow> nat \<Rightarrow> 'a list" where
  "memcpy_to_host dst src cnt = take cnt src @ drop cnt dst"

text \<open>The block size used by every kernel launch of the library (\<open>int threads = 256\<close>).\<close>

definition threads :: nat where
  "threads = 256"

section \<open>k nearest neighbours (knn.cu)\<close>

text \<open>\<open>DBL_MAX\<close> of \<open>cfloat\<close>: the largest finite double.\<close>

definition DBL_MAX :: real where
  "DBL_MAX = (2 - 1 / 2 ^ 52) * 2 ^ 1023"

text \<open>
  The shifting loop of \<open>insert_if_closer\<close>:
  \<open>while (pos > 0 && dists[pos - 1] > d) { dists[pos] = dists[pos - 1]; ...; pos--; }\<close>.
\<close>

function shift_loop :: "real list \<Rightarrow> int list \<Rightarrow> nat \<Rightarrow> real \<Rightarrow> real list \<times> int list \<times> nat" where
  "shift_loop dists idxs pos d =
     (if pos > 0 \<and> dists ! (pos - 1) > d
      then shift_loop (dists[pos := dists ! (pos - 1)]) (idxs[pos := idxs ! (pos - 1)]) (pos - 1) d
      else (dists, idxs, pos))"
  by pat_completeness auto
termination
  by (relation "measure (\<lambda>(dists, idxs, pos, d). pos)") auto

declare shift_loop.simps [simp del]

definition insert_if_closer :: "real list \<times> int list \<Rightarrow> nat \<Rightarrow> real \<Rightarrow> int \<Rightarrow> real list \<times> int list" where
  "insert_if_closer st k d idx =
     (let dists = fst st; idxs = snd st in
      if d \<ge> dists ! (k - 1) then (dists, idxs)
      else (case shift_loop dists idxs (k - 1) d of
              (dists', idxs', pos) \<Rightarrow> (dists'[pos := d], idxs'[pos := idx])))"

text \<open>
  The Euclidean distance of the kernel: the squared differences are accumulated over the
  \<open>d\<close> coordinates of the row-major point matrix, then the square root is taken.
\<close>

definition dist_sq :: "real list \<Rightarrow> nat \<Rightarrow> nat \<Rightarrow> nat \<Rightarrow> real" where
  "dist_sq points d a b =
     fold (\<lambda>dim acc. acc + (points ! (a * d + dim) - points ! (b * d + dim)) *
                           (points ! (a * d + dim) - points ! (b * d + dim)))
          [0..<d] 0"

text \<open>
  The strided scan of one thread:
  \<open>for (int i = tid; i < n; i += nthreads) { if (i == query_id) continue; ... }\<close>.
\<close>

function thread_scan :: "real list \<Rightarrow> nat \<Rightarrow> nat \<Rightarrow> nat \<Rightarrow> nat \<Rightarrow> nat \<Rightarrow>
    real list \<times> int list \<Rightarrow> real list \<times> int list" where
  "thread_scan points n d local_k query_id i st =
     (if i < n
      then thread_scan points n d local_k query_id (i + threads)
             (if i = query_id then st
              else insert_if_closer st local_k (sqrt (dist_sq points d query_id i)) (int i))
      else st)"
  by pat_completeness auto
termination
  by (relation "measure (\<lambda>(points, n, d, local_k, query_id, i, st). n - i)")
     (auto simp: threads_def)

declare thread_scan.simps [simp del]

text \<open>The thread-local top-k of thread \<open>tid\<close> of the block of \<open>query_id\<close>.\<close>

definition thread_local :: "real list \<Rightarrow> nat \<Rightarrow> nat \<Rightarrow> nat \<Rightarrow> nat \<Rightarrow> nat \<Rightarrow> real list \<times> int list" where
  "thread_local points n d local_k query_id tid =
     thread_scan points n d local_k query_id tid
       (replicate local_k DBL_MAX, replicate local_k (- 1))"

text \<open>
  One block of \<open>knn_kernel\<close>. Every thread writes its local result to shared memory at
  offset \<open>tid * local_k\<close>; after the barrier thread 0 merges the rows of all threads,
  skipping the entries whose index is negative, and writes the \<open>k\<close> outputs of the query.
\<close>

definition knn_block :: "real list \<Rightarrow> nat \<Rightarrow> nat \<Rightarrow> nat \<Rightarrow> nat \<Rightarrow> real list \<times> int list" where
  "knn_block points n d k query_id =
     (let local_k = min k 256;
          s_dist = concat (map (\<lambda>tid. fst (thread_local points n d local_k query_id tid)) [0..<threads]);
          s_idx = concat (map (\<lambda>tid. snd (thread_local points n d local_k query_id tid)) [0..<threads]);
          merged =
            fold (\<lambda>t acc.
                    fold (\<lambda>i acc.
                            (let d_val = s_dist ! (t * local_k + i);
                                 i_val = s_idx ! (t * local_k + i)
                             in if i_val \<ge> 0 then insert_if_closer acc local_k d_val i_val else acc))
                         [0..<local_k] acc)
                 [0..<threads]
                 (replicate local_k DBL_MAX, replicate local_k (- 1))
      in (map (\<lambda>i. fst merged ! i) [0..<k], map (\<lambda>i. snd merged ! i) [0..<k]))"

text \<open>
  The launch \<open>knn_kernel<<<n, 256, smem>>>\<close>: block \<open>query_id\<close> writes the entries
  \<open>query_id * k .. query_id * k + k - 1\<close> of both device arrays.
\<close>

definition knn_kernel :: "real list \<Rightarrow> nat \<Rightarrow> nat \<Rightarrow> nat \<Rightarrow> real list \<times> int list" where
  "knn_kernel points n d k =
     (concat (map (\<lambda>q. fst (knn_block points n d k q)) [0..<n]),
      concat (map (\<lambda>q. snd (knn_block points n d k q)) [0..<n]))"

definition topo_gpu_knn :: "cuda_env \<Rightarrow> real list option \<Rightarrow> int \<Rightarrow> int \<Rightarrow> int \<Rightarrow>
    real list option \<Rightarrow> int list option \<Rightarrow> TopoError \<times> real list option \<times> int list option" where
  "topo_gpu_knn env points n d k out_dist out_idx =
     (if points = None \<or> out_dist = None \<or> out_idx = None
        then (TOPO_ERROR_INVALID_ARGUMENT, out_dist, out_idx)
      else if n \<le> 0 \<or> d \<le> 0 \<or> k \<le> 0 \<or> k \<ge> n
        then (TOPO_ERROR_INVALID_ARGUMENT, out_dist, out_idx)
      else if k > 256
        then (TOPO_ERROR_INVALID_ARGUMENT, out_dist, out_idx)
      else if device_count env = 0
        then (TOPO_ERROR_CUDA_NOT_AVAILABLE, out_dist, out_idx)
      else if \<not> malloc_ok env 0 \<or> \<not> malloc_ok env 1 \<or> \<not> malloc_ok env 2
        then (TOPO_ERROR_CUDA_MALLOC, out_dist, out_idx)
      else if \<not> memcpy_ok env 0
        then (TOPO_ERROR_CUDA_MEMCPY, out_dist, out_idx)
      else
        (let dev = knn_kernel (the points) (nat n) (nat d) (nat k) in
         if \<not> launch_ok env
           then (TOPO_ERROR_CUDA_KERNEL, out_dist, out_idx)
         else if \<not> memcpy_ok env 1
           then (TOPO_ERROR_CUDA_MEMCPY, out_dist, out_idx)
         else if \<not> memcpy_ok env 2
           then (TOPO_ERROR_CUDA_MEMCPY,
                 Some (memcpy_to_host (the out_dist) (fst dev) (nat n * nat k)), out_idx)
         else (TOPO_SUCCESS,
               Some (memcpy_to_host (the out_dist) (fst dev) (nat n * nat k)),
               Some (memcpy_to_host (the out_idx) (snd dev) (nat n * nat k)))))"

section \<open>Argument checks of topo_gpu_knn\<close>

text \<open>
  Claim C8. With non-null pointers, a call of \<open>topo_gpu_knn\<close> with \<open>n \<le> 0\<close>, \<open>d \<le> 0\<close>,
  \<open>k \<le> 0\<close> or \<open>k \<ge> n\<close> returns the invalid-argument code and leaves both output arrays
  as they were.
\<close>

theorem knn_invalid_argument:
  assumes "n \<le> 0 \<or> d \<le> 0 \<or> k \<le> 0 \<or> k \<ge> n"
  shows "topo_gpu_knn env (Some points) n d k (Some out_dist) (Some out_idx) =
           (TOPO_ERROR_INVALID_ARGUMENT, Some out_dist, Some out_idx)"
  using assms by (simp add: topo_gpu_knn_def)

theorem knn_invalid_argument_witness:
  "((3::int) \<le> 0 \<or> (2::int) \<le> 0 \<or> (3::int) \<le> 0 \<or> (3::int) \<ge> 3) \<and>
   topo_gpu_knn ideal_env (Some [0, 0, 1, 0, 0, 1]) 3 2 3 (Some [7, 7, 7]) (Some [9, 9, 9]) =
     (TOPO_ERROR_INVALID_ARGUMENT, Some [7, 7, 7], Some [9, 9, 9])"
  using knn_invalid_argument [of 3 2 3
      ideal_env
      "[0, 0, 1, 0, 0, 1]" "[7, 7, 7]" "[9, 9, 9]"]
  by simp

text \<open>
  Claim C10. Every \<open>k > 256\<close> is rejected with the invalid-argument code, also when
  \<open>0 < k < n\<close> holds, and nothing is written.
\<close>

theorem knn_rejects_k_above_256:
  assumes "k > 256"
  shows "fst (topo_gpu_knn env points n d k out_dist out_idx) = TOPO_ERROR_INVALID_ARGUMENT \<and>
         snd (topo_gpu_knn env points n d k out_dist out_idx) = (out_dist, out_idx)"
  using assms by (simp add: topo_gpu_knn_def)

theorem knn_rejects_k_above_256_witness:
  "(257::int) > 256 \<and> 0 < (257::int) \<and> (257::int) < 300 \<and>
   fst (topo_gpu_knn ideal_env (Some (replicate 300 0)) 300 1 257 (Some []) (Some [])) = TOPO_ERROR_INVALID_ARGUMENT \<and>
   snd (topo_gpu_knn ideal_env (Some (replicate 300 0)) 300 1 257 (Some []) (Some [])) = (Some [], Some [])"
  using knn_rejects_k_above_256 [of 257
      ideal_env
      "Some (replicate 300 0)" 300 1 "Some []" "Some []"]
  by simp

section \<open>Row ordering of the kNN result\<close>

text \<open>
  The top-k arrays of a thread and of the merge keep one invariant: both have \<open>k\<close>
  entries, the distances are in non-decreasing order, and the index of the query is absent.
\<close>

lemma shift_loop_spec:
  assumes "pos < length dists" "length idxs = length dists"
  shows "case shift_loop dists idxs pos d of (ds, is, p) \<Rightarrow>
           p \<le> pos \<and> length ds = length dists \<and> length is = length dists \<and>
           (\<forall>j<p. ds ! j = dists ! j) \<and>
           (\<forall>j. p < j \<and> j \<le> pos \<longrightarrow> ds ! j = dists ! (j - 1)) \<and>
           (\<forall>j. pos < j \<and> j < length dists \<longrightarrow> ds ! j = dists ! j) \<and>
           (p = 0 \<or> dists ! (p - 1) \<le> d) \<and>
           (\<forall>j. p \<le> j \<and> j < pos \<longrightarrow> d < dists ! j) \<and>
           set is \<subseteq> set idxs"
  using assms
proof (induction dists idxs pos d rule: shift_loop.induct)
  case (1 dists idxs pos d)
  show ?case
  proof (cases "pos > 0 \<and> dists ! (pos - 1) > d")
    case False
    with "1.prems" show ?thesis
      by (subst shift_loop.simps) (auto simp: not_less)
  next
    case True
    let ?ds = "dists[pos := dists ! (pos - 1)]"
    let ?is = "idxs[pos := idxs ! (pos - 1)]"
    have len: "pos - 1 < length ?ds" "length ?is = length ?ds"
      using "1.prems" by auto
    note IH = "1.IH"[OF True len]
    obtain ds "is" p where r: "shift_loop ?ds ?is (pos - 1) d = (ds, is, p)"
      by (cases "shift_loop ?ds ?is (pos - 1) d") auto
    have eq: "shift_loop dists idxs pos d = (ds, is, p)"
      using True r by (subst shift_loop.simps) simp
    from IH r have
      a: "p \<le> pos - 1" "length ds = length dists" "length is = length dists"
      and b: "\<forall>j<p. ds ! j = ?ds ! j"
      and c: "\<forall>j. p < j \<and> j \<le> pos - 1 \<longrightarrow> ds ! j = ?ds ! (j - 1)"
      and e: "\<forall>j. pos - 1 < j \<and> j < length dists \<longrightarrow> ds ! j = ?ds ! j"
      and f: "p = 0 \<or> ?ds ! (p - 1) \<le> d"
      and g: "\<forall>j. p \<le> j \<and> j < pos - 1 \<longrightarrow> d < ?ds ! j"
      and h: "set is \<subseteq> set ?is"
      by auto
    have h': "set is \<subseteq> set idxs"
    proof -
      have "set ?is \<subseteq> insert (idxs ! (pos - 1)) (set idxs)"
        by (rule set_update_subset_insert)
      moreover have "idxs ! (pos - 1) \<in> set idxs"
        using "1.prems" True by (intro nth_mem) auto
      ultimately show ?thesis using h by auto
    qed
    have p1: "\<forall>j<p. ds ! j = dists ! j"
      using a b "1.prems" True by auto
    have p2: "\<forall>j. p < j \<and> j \<le> pos \<longrightarrow> ds ! j = dists ! (j - 1)"
    proof (intro allI impI)
      fix j assume j: "p < j \<and> j \<le> pos"
      show "ds ! j = dists ! (j - 1)"
      proof (cases "j = pos")
        case True
        with e "1.prems" \<open>0 < pos \<and> d < dists ! (pos - 1)\<close> show ?thesis by auto
      next
        case False
        with j c have "ds ! j = ?ds ! (j - 1)" by auto
        moreover have "j - 1 \<noteq> pos" using j by auto
        ultimately show ?thesis by simp
      qed
    qed
    have p3: "\<forall>j. pos < j \<and> j < length dists \<longrightarrow> ds ! j = dists ! j"
      using e by auto
    have p4: "p = 0 \<or> dists ! (p - 1) \<le> d"
      using f a True by (cases "p = 0") auto
    have p5: "\<forall>j. p \<le> j \<and> j < pos \<longrightarrow> d < dists ! j"
    proof (intro allI impI)
      fix j assume j: "p \<le> j \<and> j < pos"
      show "d < dists ! j"
      proof (cases "j = pos - 1")
        case True
        with \<open>0 < pos \<and> d < dists ! (pos - 1)\<close> show ?thesis by simp
      next
        case False
        with j g have "d < ?ds ! j" by auto
        with j show ?thesis by simp
      qed
    qed
    show ?thesis
      unfolding eq using a p1 p2 p3 p4 p5 h' by auto
  qed
qed

lemma insert_if_closer_sorted:
  assumes "length (fst st) = k" "length (snd st) = k" "0 < k" "sorted (fst st)"
  shows "length (fst (insert_if_closer st k d idx)) = k \<and>
         length (snd (insert_if_closer st k d idx)) = k \<and>
         sorted (fst (insert_if_closer st k d idx)) \<and>
         set (snd (insert_if_closer st k d idx)) \<subseteq> insert idx (set (snd st))"
proof (cases "d \<ge> fst st ! (k - 1)")
  case True
  with assms show ?thesis by (auto simp: insert_if_closer_def)
next
  case False
  let ?dists = "fst st" and ?idxs = "snd st"
  obtain ds "is" p where r: "shift_loop ?dists ?idxs (k - 1) d = (ds, is, p)"
    by (cases "shift_loop ?dists ?idxs (k - 1) d") auto
  have pre: "k - 1 < length ?dists" "length ?idxs = length ?dists"
    using assms by auto
  from shift_loop_spec[OF pre, of d] r have
    a: "p \<le> k - 1" "length ds = k" "length is = k"
    and b: "\<forall>j<p. ds ! j = ?dists ! j"
    and c: "\<forall>j. p < j \<and> j \<le> k - 1 \<longrightarrow> ds ! j = ?dists ! (j - 1)"
    and f: "p = 0 \<or> ?dists ! (p - 1) \<le> d"
    and g: "\<forall>j. p \<le> j \<and> j < k - 1 \<longrightarrow> d < ?dists ! j"
    and h: "set is \<subseteq> set ?idxs"
    using assms by auto
  have pk: "p < k" "p < length ds" using a assms by auto
  have res: "insert_if_closer st k d idx = (ds[p := d], is[p := idx])"
    using False r by (simp add: insert_if_closer_def)
  have mono: "\<And>i j. i \<le> j \<Longrightarrow> j < k \<Longrightarrow> ?dists ! i \<le> ?dists ! j"
    using assms by (auto simp: sorted_iff_nth_mono)
  have "sorted (ds[p := d])"
    unfolding sorted_iff_nth_mono
  proof (intro allI impI)
    fix i j assume ij: "i \<le> j" "j < length (ds[p := d])"
    then have jk: "j < k" "i < k" using a by auto
    consider "j < p" | "j = p" "i < p" | "j = p" "i = p" | "p < j" "i < p" | "p < j" "i = p" | "p < j" "p < i"
      using ij by linarith
    then show "ds[p := d] ! i \<le> ds[p := d] ! j"
    proof cases
      case 1
      with ij a b jk show ?thesis by (auto intro: mono)
    next
      case 2
      then have "p \<noteq> 0" by auto
      with f have "?dists ! (p - 1) \<le> d" by auto
      moreover have "?dists ! i \<le> ?dists ! (p - 1)" using 2 a by (intro mono) auto
      ultimately show ?thesis using 2 a b pk by auto
    next
      case 3
      then show ?thesis by simp
    next
      case 4
      then have "ds ! j = ?dists ! (j - 1)" "ds ! i = ?dists ! i" using b c jk by auto
      moreover have "?dists ! i \<le> ?dists ! (j - 1)" using 4 jk by (intro mono) auto
      ultimately show ?thesis using 4 a pk by auto
    next
      case 5
      then have "ds ! j = ?dists ! (j - 1)" using c jk by auto
      moreover have "p \<le> j - 1 \<and> j - 1 < k - 1" using 5 jk by auto
      then have "d < ?dists ! (j - 1)" using g by blast
      ultimately show ?thesis using 5 a pk by auto
    next
      case 6
      then have "ds ! j = ?dists ! (j - 1)" "ds ! i = ?dists ! (i - 1)" using c jk by auto
      moreover have "?dists ! (i - 1) \<le> ?dists ! (j - 1)" using 6 ij jk by (intro mono) auto
      ultimately show ?thesis using 6 a pk by auto
    qed
  qed
  moreover have "set (is[p := idx]) \<subseteq> insert idx (set ?idxs)"
    using h set_update_subset_insert[of "is" p idx] by auto
  ultimately show ?thesis using a by (simp add: res)
qed

definition topk_inv :: "nat \<Rightarrow> int \<Rightarrow> real list \<times> int list \<Rightarrow> bool" where
  "topk_inv k q st \<longleftrightarrow>
     length (fst st) = k \<and> length (snd st) = k \<and> sorted (fst st) \<and> q \<notin> set (snd st)"

lemma insert_if_closer_inv:
  assumes "topk_inv k q st" "0 < k" "idx \<noteq> q"
  shows "topk_inv k q (insert_if_closer st k d idx)"
proof -
  from assms have pre: "length (fst st) = k" "length (snd st) = k" "sorted (fst st)"
    by (auto simp: topk_inv_def)
  from insert_if_closer_sorted[OF pre(1,2) assms(2) pre(3), of d idx] assms
  show ?thesis by (auto simp: topk_inv_def)
qed

lemma thread_scan_inv:
  assumes "topk_inv k (int q) st" "0 < k"
  shows "topk_inv k (int q) (thread_scan points n d k q i st)"
  using assms
proof (induction points n d k q i st rule: thread_scan.induct)
  case (1 points n d local_k query_id i st)
  show ?case
  proof (cases "i < n")
    case False
    with "1.prems" show ?thesis by (subst thread_scan.simps) simp
  next
    case True
    let ?st = "if i = query_id then st
               else insert_if_closer st local_k (sqrt (dist_sq points d query_id i)) (int i)"
    have "topk_inv local_k (int query_id) ?st"
      using "1.prems" by (auto intro: insert_if_closer_inv)
    from "1.IH"[OF True this "1.prems"(2)] True show ?thesis
      by (subst thread_scan.simps) simp
  qed
qed

lemma topk_inv_init: "q \<noteq> - 1 \<Longrightarrow> topk_inv k q (replicate k DBL_MAX, replicate k (- 1))"
  by (auto simp: topk_inv_def sorted_replicate)

lemma thread_local_inv:
  "0 < k \<Longrightarrow> topk_inv k (int q) (thread_local points n d k q tid)"
  unfolding thread_local_def by (rule thread_scan_inv) (auto intro: topk_inv_init)

lemma length_concat_uniform:
  "(\<And>x. x \<in> set xs \<Longrightarrow> length (f x) = k) \<Longrightarrow> length (concat (map f xs)) = length xs * k"
  by (induction xs) auto

lemma row_concat_uniform:
  "(\<And>x. x \<in> set xs \<Longrightarrow> length (f x) = k) \<Longrightarrow> q < length xs \<Longrightarrow>
     take k (drop (q * k) (concat (map f xs))) = f (xs ! q)"
proof (induction xs arbitrary: q)
  case Nil
  then show ?case by simp
next
  case (Cons x xs)
  show ?case
  proof (cases q)
    case 0
    with Cons.prems show ?thesis by simp
  next
    case (Suc q')
    with Cons show ?thesis by simp
  qed
qed

lemma merge_inner_inv:
  assumes "topk_inv k q acc" "0 < k" "q \<notin> set s_idx" "\<And>i. i \<in> set js \<Longrightarrow> t * k + i < length s_idx"
  shows "topk_inv k q
           (fold (\<lambda>i acc.
                    (let d_val = s_dist ! (t * k + i);
                         i_val = s_idx ! (t * k + i)
                     in if i_val \<ge> 0 then insert_if_closer acc k d_val i_val else acc))
                 js acc)"
  using assms
proof (induction js arbitrary: acc)
  case Nil
  then show ?case by simp
next
  case (Cons j js)
  have "s_idx ! (t * k + j) \<in> set s_idx"
    using Cons.prems(4)[of j] by simp
  with Cons.prems(3) have "s_idx ! (t * k + j) \<noteq> q" by auto
  then have "topk_inv k q
       (let d_val = s_dist ! (t * k + j); i_val = s_idx ! (t * k + j)
        in if i_val \<ge> 0 then insert_if_closer acc k d_val i_val else acc)"
    using Cons.prems(1,2) by (auto simp: Let_def intro: insert_if_closer_inv)
  from Cons.IH[OF this Cons.prems(2,3)] Cons.prems(4) show ?case by simp
qed

lemma merge_outer_inv:
  assumes "topk_inv k q acc" "0 < k" "q \<notin> set s_idx" "\<And>t. t \<in> set ts \<Longrightarrow> t * k + k \<le> length s_idx"
  shows "topk_inv k q
           (fold (\<lambda>t acc.
                    fold (\<lambda>i acc.
                            (let d_val = s_dist ! (t * k + i);
                                 i_val = s_idx ! (t * k + i)
                             in if i_val \<ge> 0 then insert_if_closer acc k d_val i_val else acc))
                         [0..<k] acc)
                 ts acc)"
  using assms
proof (induction ts arbitrary: acc)
  case Nil
  then show ?case by simp
next
  case (Cons t ts)
  have "topk_inv k q
     (fold (\<lambda>i acc.
              (let d_val = s_dist ! (t * k + i); i_val = s_idx ! (t * k + i)
               in if i_val \<ge> 0 then insert_if_closer acc k d_val i_val else acc))
           [0..<k] acc)"
    by (rule merge_inner_inv[OF Cons.prems(1,2,3)]) (use Cons.prems(4)[of t] in auto)
  from Cons.IH[OF this Cons.prems(2,3)] Cons.prems(4) show ?case by simp
qed

lemma map_nth_len: "length xs = k \<Longrightarrow> map (\<lambda>i. xs ! i) [0..<k] = xs"
  using map_nth[of xs] by auto

lemma knn_block_inv:
  assumes "0 < k" "k \<le> 256"
  shows "topk_inv k (int q) (knn_block points n d k q)"
proof -
  let ?s_idx = "concat (map (\<lambda>tid. snd (thread_local points n d k q tid)) [0..<threads])"
  let ?s_dist = "concat (map (\<lambda>tid. fst (thread_local points n d k q tid)) [0..<threads])"
  let ?merged = "fold (\<lambda>t acc.
                    fold (\<lambda>i acc.
                            (let d_val = ?s_dist ! (t * k + i);
                                 i_val = ?s_idx ! (t * k + i)
                             in if i_val \<ge> 0 then insert_if_closer acc k d_val i_val else acc))
                         [0..<k] acc)
                 [0..<threads]
                 (replicate k DBL_MAX, replicate k (- 1))"
  have tl: "\<And>tid. topk_inv k (int q) (thread_local points n d k q tid)"
    using assms(1) by (rule thread_local_inv)
  have len: "length ?s_idx = threads * k"
    using tl by (subst length_concat_uniform[where k = k]) (auto simp: topk_inv_def)
  have notin: "int q \<notin> set ?s_idx"
    using tl by (auto simp: topk_inv_def)
  have bound: "\<And>t. t \<in> set [0..<threads] \<Longrightarrow> t * k + k \<le> length ?s_idx"
  proof -
    fix t assume "t \<in> set [0..<threads]"
    then have "Suc t \<le> threads" by simp
    then have "Suc t * k \<le> threads * k" by (rule mult_le_mono1)
    then show "t * k + k \<le> length ?s_idx" by (simp add: len)
  qed
  have m: "topk_inv k (int q) ?merged"
    by (rule merge_outer_inv[OF topk_inv_init assms(1) notin bound]) auto
  have mk: "min k 256 = k" using assms by simp
  have "knn_block points n d k q =
          (map (\<lambda>i. fst ?merged ! i) [0..<k], map (\<lambda>i. snd ?merged ! i) [0..<k])"
    by (simp add: knn_block_def mk Let_def)
  also have "\<dots> = (fst ?merged, snd ?merged)"
    using m by (simp add: topk_inv_def map_nth_len)
  finally show ?thesis using m by (simp add: topk_inv_def)
qed

lemma memcpy_to_host_row:
  assumes "length src = cnt" "a + k \<le> cnt"
  shows "take k (drop a (memcpy_to_host dst src cnt)) = take k (drop a src)"
    and "a + k \<le> length (memcpy_to_host dst src cnt)"
  using assms by (auto simp: memcpy_to_host_def)

lemma knn_kernel_rows:
  assumes "0 < k" "k \<le> 256" "q < n"
  shows "take k (drop (q * k) (fst (knn_kernel points n d k))) = fst (knn_block points n d k q)"
    and "take k (drop (q * k) (snd (knn_kernel points n d k))) = snd (knn_block points n d k q)"
    and "length (fst (knn_kernel points n d k)) = n * k"
    and "length (snd (knn_kernel points n d k)) = n * k"
proof -
  have inv: "\<And>x. topk_inv k (int x) (knn_block points n d k x)"
    using assms(1,2) by (rule knn_block_inv)
  have l1: "\<And>x. x \<in> set [0..<n] \<Longrightarrow> length (fst (knn_block points n d k x)) = k"
    using inv by (simp add: topk_inv_def)
  have l2: "\<And>x. x \<in> set [0..<n] \<Longrightarrow> length (snd (knn_block points n d k x)) = k"
    using inv by (simp add: topk_inv_def)
  have q: "q < length [0..<n]" using assms(3) by simp
  show "take k (drop (q * k) (fst (knn_kernel points n d k))) = fst (knn_block points n d k q)"
    using row_concat_uniform[of "[0..<n]" "\<lambda>q. fst (knn_block points n d k q)" k q, OF l1 q] assms(3)
    by (simp add: knn_kernel_def)
  show "take k (drop (q * k) (snd (knn_kernel points n d k))) = snd (knn_block points n d k q)"
    using row_concat_uniform[of "[0..<n]" "\<lambda>q. snd (knn_block points n d k q)" k q, OF l2 q] assms(3)
    by (simp add: knn_kernel_def)
  show "length (fst (knn_kernel points n d k)) = n * k"
    using length_concat_uniform[of "[0..<n]" "\<lambda>q. fst (knn_block points n d k q)" k, OF l1]
    by (simp add: knn_kernel_def)
  show "length (snd (knn_kernel points n d k)) = n * k"
    using length_concat_uniform[of "[0..<n]" "\<lambda>q. snd (knn_block points n d k q)" k, OF l2]
    by (simp add: knn_kernel_def)
qed

lemma topo_gpu_knn_success:
  assumes "topo_gpu_knn env points n d k out_dist out_idx = (TOPO_SUCCESS, D, I)"
  shows "0 < n \<and> 0 < d \<and> 0 < k \<and> k < n \<and> k \<le> 256 \<and>
         (\<exists>P od oi. points = Some P \<and> out_dist = Some od \<and> out_idx = Some oi \<and>
            D = Some (memcpy_to_host od (fst (knn_kernel P (nat n) (nat d) (nat k))) (nat n * nat k)) \<and>
            I = Some (memcpy_to_host oi (snd (knn_kernel P (nat n) (nat d) (nat k))) (nat n * nat k)))"
  using assms by (auto simp: topo_gpu_knn_def Let_def split: if_splits)


text \<open>
  A run of the kernel on few points. A thread whose id is at least \<open>n\<close> scans nothing and
  leaves the sentinels in its row of shared memory, which the merge of thread 0 skips; so for
  \<open>n \<le> 256\<close> only the rows of the first \<open>n\<close> threads contribute, each with at most
  one candidate. \<open>merge_row\<close> is the inner loop of the merge, reading one row.
\<close>

lemma thread_local_idle:
  "n \<le> tid \<Longrightarrow> thread_local points n d k q tid = (replicate k DBL_MAX, replicate k (- 1))"
  by (simp add: thread_local_def thread_scan.simps)

lemma nth_concat_uniform:
  assumes "\<And>x. x \<in> set xs \<Longrightarrow> length (f x) = k" "t < length xs" "i < k"
  shows "concat (map f xs) ! (t * k + i) = f (xs ! t) ! i"
proof -
  have len: "length (concat (map f xs)) = length xs * k"
    using assms(1) by (rule length_concat_uniform)
  have "Suc t * k \<le> length xs * k" using assms(2) by (intro mult_le_mono1) simp
  then have b: "t * k + i < length xs * k" using assms(3) by simp
  have "take k (drop (t * k) (concat (map f xs))) ! i = f (xs ! t) ! i"
    using row_concat_uniform[of xs f k t] assms by simp
  moreover have "take k (drop (t * k) (concat (map f xs))) ! i = drop (t * k) (concat (map f xs)) ! i"
    using assms(3) by simp
  moreover have "drop (t * k) (concat (map f xs)) ! i = concat (map f xs) ! (t * k + i)"
    using mult_le_mono1[of t "length xs" k] assms(2) len by (intro nth_drop) simp
  ultimately show ?thesis by simp
qed

definition merge_row :: "nat \<Rightarrow> real list \<times> int list \<Rightarrow> real list \<times> int list \<Rightarrow> real list \<times> int list" where
  "merge_row k r acc =
     fold (\<lambda>i acc. if snd r ! i \<ge> 0 then insert_if_closer acc k (fst r ! i) (snd r ! i) else acc)
          [0..<k] acc"

lemma merge_row_idle: "merge_row k (replicate k DBL_MAX, replicate k (- 1)) acc = acc"
proof -
  have "fold (\<lambda>i acc. if snd (replicate k DBL_MAX, replicate k (- 1 :: int)) ! i \<ge> 0
                        then insert_if_closer acc k (fst (replicate k DBL_MAX, replicate k (- 1 :: int)) ! i)
                               (snd (replicate k DBL_MAX, replicate k (- 1 :: int)) ! i) else acc) js acc = acc"
    if "\<And>j. j \<in> set js \<Longrightarrow> j < k" for js
    using that by (induction js arbitrary: acc) auto
  from this[of "[0..<k]"] show ?thesis unfolding merge_row_def by simp
qed

lemma knn_block_rows:
  assumes "0 < k" "k \<le> 256"
  shows "knn_block points n d k q =
           (let merged = fold (\<lambda>t acc. merge_row k (thread_local points n d k q t) acc) [0..<threads]
                           (replicate k DBL_MAX, replicate k (- 1))
            in (map (\<lambda>i. fst merged ! i) [0..<k], map (\<lambda>i. snd merged ! i) [0..<k]))"
proof -
  let ?row = "thread_local points n d k q"
  let ?s_dist = "concat (map (\<lambda>tid. fst (?row tid)) [0..<threads])"
  let ?s_idx = "concat (map (\<lambda>tid. snd (?row tid)) [0..<threads])"
  have inv: "\<And>t. topk_inv k (int q) (?row t)" using assms(1) by (rule thread_local_inv)
  have ld: "\<And>x. x \<in> set [0..<threads] \<Longrightarrow> length (fst (?row x)) = k"
    and li: "\<And>x. x \<in> set [0..<threads] \<Longrightarrow> length (snd (?row x)) = k"
    using inv by (simp_all add: topk_inv_def)
  have inner: "fold (\<lambda>i acc. if ?s_idx ! (t * k + i) \<ge> 0
                     then insert_if_closer acc k (?s_dist ! (t * k + i)) (?s_idx ! (t * k + i)) else acc) [0..<k] acc =
               merge_row k (?row t) acc" if "t < threads" for t acc
    unfolding merge_row_def
  proof (rule fold_cong[OF refl refl])
    fix i assume "i \<in> set [0..<k]"
    then have i: "i < k" by simp
    have "?s_dist ! (t * k + i) = fst (?row t) ! i"
      using nth_concat_uniform[of "[0..<threads]" "\<lambda>tid. fst (?row tid)" k t i] ld that i by simp
    moreover have "?s_idx ! (t * k + i) = snd (?row t) ! i"
      using nth_concat_uniform[of "[0..<threads]" "\<lambda>tid. snd (?row tid)" k t i] li that i by simp
    ultimately show "(\<lambda>acc. if 0 \<le> ?s_idx ! (t * k + i)
                        then insert_if_closer acc k (?s_dist ! (t * k + i)) (?s_idx ! (t * k + i)) else acc) =
          (\<lambda>acc. if 0 \<le> snd (?row t) ! i then insert_if_closer acc k (fst (?row t) ! i) (snd (?row t) ! i) else acc)"
      by (simp only:)
  qed
  let ?merged = "fold (\<lambda>t acc. merge_row k (?row t) acc) [0..<threads] (replicate k DBL_MAX, replicate k (- 1))"
  have outer: "fold (\<lambda>t acc. fold (\<lambda>i acc. if ?s_idx ! (t * k + i) \<ge> 0
                     then insert_if_closer acc k (?s_dist ! (t * k + i)) (?s_idx ! (t * k + i)) else acc) [0..<k] acc)
                 [0..<threads] (replicate k DBL_MAX, replicate k (- 1)) = ?merged"
    by (rule fold_cong[OF refl refl]) (use inner in auto)
  have mk: "min k 256 = k" using assms by simp
  show ?thesis unfolding knn_block_def mk Let_def outer ..
qed

lemma fold_idle_threads:
  assumes "n \<le> threads"
  shows "fold (\<lambda>t acc. merge_row k (thread_local points n d k q t) acc) [0..<threads] acc =
         fold (\<lambda>t acc. merge_row k (thread_local points n d k q t) acc) [0..<n] acc"
proof -
  have idle: "fold (\<lambda>t acc. merge_row k (thread_local points n d k q t) acc) ts acc = acc"
    if "\<And>t. t \<in> set ts \<Longrightarrow> n \<le> t" for ts acc
    using that by (induction ts arbitrary: acc) (simp_all add: thread_local_idle merge_row_idle)
  have "[0..<threads] = [0..<n] @ [n..<threads]"
    using assms upt_add_eq_append[of 0 n "threads - n"] by simp
  then have "fold (\<lambda>t acc. merge_row k (thread_local points n d k q t) acc) [0..<threads] acc =
             fold (\<lambda>t acc. merge_row k (thread_local points n d k q t) acc) [n..<threads]
               (fold (\<lambda>t acc. merge_row k (thread_local points n d k q t) acc) [0..<n] acc)"
    by simp
  also have "\<dots> = fold (\<lambda>t acc. merge_row k (thread_local points n d k q t) acc) [0..<n] acc"
    by (rule idle) simp
  finally show ?thesis .
qed

lemma thread_local_active:
  assumes "n \<le> threads" "tid < n"
  shows "thread_local points n d k q tid =
           (if tid = q then (replicate k DBL_MAX, replicate k (- 1))
            else insert_if_closer (replicate k DBL_MAX, replicate k (- 1)) k
                   (sqrt (dist_sq points d q tid)) (int tid))"
proof -
  have "\<not> tid + threads < n" using assms by simp
  then show ?thesis
    unfolding thread_local_def
    by (subst thread_scan.simps, subst thread_scan.simps) (simp add: assms)
qed

lemma knn_block_small:
  assumes "0 < k" "k \<le> 256" "n \<le> threads"
  shows "knn_block points n d k q =
           (let merged = fold (\<lambda>t acc. merge_row k (thread_local points n d k q t) acc) [0..<n]
                           (replicate k DBL_MAX, replicate k (- 1))
            in (map (\<lambda>i. fst merged ! i) [0..<k], map (\<lambda>i. snd merged ! i) [0..<k]))"
  unfolding knn_block_rows[OF assms(1,2)] fold_idle_threads[OF assms(3)] ..

lemma sqrt9: "sqrt 9 = 3" by (rule real_sqrt_unique) simp_all

lemma DBL_MAX_big: "4 < DBL_MAX"
proof -
  have "(2::real) ^ 2 \<le> 2 ^ 1023" by (rule power_increasing) simp_all
  moreover have "(1::real) \<le> 2 - 1 / 2 ^ 52" by simp
  ultimately have "1 * (2::real) ^ 2 \<le> (2 - 1 / 2 ^ 52) * 2 ^ 1023"
    by (intro mult_mono) simp_all
  moreover have "(2::real) ^ 2 = 4" by simp
  ultimately have "4 \<le> DBL_MAX" unfolding DBL_MAX_def by simp
  moreover have "DBL_MAX \<noteq> 4" unfolding DBL_MAX_def by simp
  ultimately show ?thesis by simp
qed

lemma insert_first:
  assumes "x < DBL_MAX"
  shows "insert_if_closer ([DBL_MAX, DBL_MAX], [- 1, - 1]) 2 x i = ([x, DBL_MAX], [i, - 1])"
  using assms by (simp add: insert_if_closer_def shift_loop.simps Let_def)

lemma insert_second:
  assumes "x < DBL_MAX" "y < DBL_MAX"
  shows "insert_if_closer ([x, DBL_MAX], [i, - 1]) 2 y j =
           (if x > y then ([y, x], [j, i]) else ([x, y], [i, j]))"
  using assms by (simp add: insert_if_closer_def shift_loop.simps Let_def)

lemma line_points_dist:
  "sqrt (dist_sq [0, 1, 3] (Suc 0) 0 (Suc 0)) = 1" "sqrt (dist_sq [0, 1, 3] (Suc 0) 0 2) = 3"
  "sqrt (dist_sq [0, 1, 3] (Suc 0) (Suc 0) 0) = 1" "sqrt (dist_sq [0, 1, 3] (Suc 0) (Suc 0) 2) = 2"
  "sqrt (dist_sq [0, 1, 3] (Suc 0) 2 0) = 3" "sqrt (dist_sq [0, 1, 3] (Suc 0) 2 (Suc 0)) = 2"
  by (simp_all add: dist_sq_def sqrt9)

lemma line_points_below_DBL_MAX: "(1::real) < DBL_MAX" "(2::real) < DBL_MAX" "(3::real) < DBL_MAX"
  using DBL_MAX_big by simp_all

lemma upt_2: "[0..<2] = [0, Suc 0]" and upt_3: "[0..<3] = [0, Suc 0, 2]"
  and replicate_2: "replicate 2 x = [x, x]"
  by (simp_all add: upt_rec numeral_2_eq_2)

lemma line_points_thread_local:
  "thread_local [0, 1, 3] 3 (Suc 0) 2 0 0 = ([DBL_MAX, DBL_MAX], [- 1, - 1])"
  "thread_local [0, 1, 3] 3 (Suc 0) 2 0 (Suc 0) = ([1, DBL_MAX], [1, - 1])"
  "thread_local [0, 1, 3] 3 (Suc 0) 2 0 2 = ([3, DBL_MAX], [2, - 1])"
  "thread_local [0, 1, 3] 3 (Suc 0) 2 (Suc 0) 0 = ([1, DBL_MAX], [0, - 1])"
  "thread_local [0, 1, 3] 3 (Suc 0) 2 (Suc 0) (Suc 0) = ([DBL_MAX, DBL_MAX], [- 1, - 1])"
  "thread_local [0, 1, 3] 3 (Suc 0) 2 (Suc 0) 2 = ([2, DBL_MAX], [2, - 1])"
  "thread_local [0, 1, 3] 3 (Suc 0) 2 2 0 = ([3, DBL_MAX], [0, - 1])"
  "thread_local [0, 1, 3] 3 (Suc 0) 2 2 (Suc 0) = ([2, DBL_MAX], [1, - 1])"
  "thread_local [0, 1, 3] 3 (Suc 0) 2 2 2 = ([DBL_MAX, DBL_MAX], [- 1, - 1])"
  by (simp_all add: thread_local_active threads_def replicate_2 line_points_dist insert_first line_points_below_DBL_MAX)

lemma merge_row_2:
  "merge_row 2 r acc =
     (let acc1 = (if snd r ! 0 \<ge> 0 then insert_if_closer acc 2 (fst r ! 0) (snd r ! 0) else acc)
      in if snd r ! 1 \<ge> 0 then insert_if_closer acc1 2 (fst r ! 1) (snd r ! 1) else acc1)"
  by (simp add: merge_row_def upt_2)

lemma line_points_merged:
  "fold (\<lambda>t acc. merge_row 2 (thread_local [0, 1, 3] 3 (Suc 0) 2 0 t) acc) [0..<3]
     (replicate 2 DBL_MAX, replicate 2 (- 1)) = ([1, 3], [1, 2])"
  "fold (\<lambda>t acc. merge_row 2 (thread_local [0, 1, 3] 3 (Suc 0) 2 (Suc 0) t) acc) [0..<3]
     (replicate 2 DBL_MAX, replicate 2 (- 1)) = ([1, 2], [0, 2])"
  "fold (\<lambda>t acc. merge_row 2 (thread_local [0, 1, 3] 3 (Suc 0) 2 2 t) acc) [0..<3]
     (replicate 2 DBL_MAX, replicate 2 (- 1)) = ([2, 3], [1, 0])"
  unfolding upt_3 replicate_2
  by (simp_all add: line_points_thread_local merge_row_2 insert_first insert_second line_points_below_DBL_MAX)

lemma line_points_knn_block:
  "knn_block [0, 1, 3] 3 (Suc 0) 2 0 = ([1, 3], [1, 2])"
  "knn_block [0, 1, 3] 3 (Suc 0) 2 (Suc 0) = ([1, 2], [0, 2])"
  "knn_block [0, 1, 3] 3 (Suc 0) 2 2 = ([2, 3], [1, 0])"
  by (simp_all add: knn_block_small threads_def line_points_merged upt_2)

lemma line_points_knn_kernel: "knn_kernel [0, 1, 3] 3 (Suc 0) 2 = ([1, 3, 1, 2, 2, 3], [1, 2, 0, 2, 1, 0])"
  unfolding knn_kernel_def upt_3 by (simp add: line_points_knn_block)


text \<open>
  Claim C6. After a successful call of \<open>topo_gpu_knn\<close> (which needs \<open>0 < k < n\<close>,
  \<open>d > 0\<close> and \<open>k \<le> 256\<close>), every row \<open>i\<close> of the distance matrix is non-decreasing
  in the neighbour index, and no entry of row \<open>i\<close> of the index matrix is \<open>i\<close> itself.
\<close>

theorem knn_rows_sorted_without_self:
  assumes "topo_gpu_knn env points n d k out_dist out_idx = (TOPO_SUCCESS, Some D, Some I)"
    and "i < nat n"
  shows "sorted (take (nat k) (drop (i * nat k) D)) \<and>
         (\<forall>r < nat k. I ! (i * nat k + r) \<noteq> int i)"
proof -
  from topo_gpu_knn_success[OF assms(1)] obtain P od oi where
    args: "0 < k" "k \<le> 256" "k < n"
    and D: "D = memcpy_to_host od (fst (knn_kernel P (nat n) (nat d) (nat k))) (nat n * nat k)"
    and I: "I = memcpy_to_host oi (snd (knn_kernel P (nat n) (nat d) (nat k))) (nat n * nat k)"
    by auto
  let ?k = "nat k" and ?n = "nat n"
  have k: "0 < ?k" "?k \<le> 256" using args by auto
  note rows = knn_kernel_rows[OF k assms(2), of P "nat d"]
  have inv: "topk_inv ?k (int i) (knn_block P ?n (nat d) ?k i)"
    using k by (rule knn_block_inv)
  have le: "i * ?k + ?k \<le> ?n * ?k"
  proof -
    have "Suc i * ?k \<le> ?n * ?k" using assms(2) by (intro mult_le_mono1) simp
    then show ?thesis by simp
  qed
  have rowD: "take ?k (drop (i * ?k) D) = fst (knn_block P ?n (nat d) ?k i)"
  proof -
    have "take ?k (drop (i * ?k) D) = take ?k (drop (i * ?k) (fst (knn_kernel P ?n (nat d) ?k)))"
      unfolding D using rows(3) le by (rule memcpy_to_host_row)
    then show ?thesis by (simp add: rows(1))
  qed
  have rowI: "take ?k (drop (i * ?k) I) = snd (knn_block P ?n (nat d) ?k i)"
  proof -
    have "take ?k (drop (i * ?k) I) = take ?k (drop (i * ?k) (snd (knn_kernel P ?n (nat d) ?k)))"
      unfolding I using rows(4) le by (rule memcpy_to_host_row)
    then show ?thesis by (simp add: rows(2))
  qed
  have "sorted (take ?k (drop (i * ?k) D))"
    using inv by (simp add: rowD topk_inv_def)
  moreover have "\<forall>r < ?k. I ! (i * ?k + r) \<noteq> int i"
  proof (intro allI impI)
    fix r assume r: "r < ?k"
    have lenI: "i * ?k + ?k \<le> length I"
      unfolding I using rows(4) le by (rule memcpy_to_host_row)
    have "take ?k (drop (i * ?k) I) ! r = I ! (i * ?k + r)"
      using r lenI by simp
    moreover have "take ?k (drop (i * ?k) I) ! r \<in> set (snd (knn_block P ?n (nat d) ?k i))"
      using r inv unfolding rowI by (intro nth_mem) (simp add: topk_inv_def)
    ultimately show "I ! (i * ?k + r) \<noteq> int i"
      using inv by (auto simp: topk_inv_def)
  qed
  ultimately show ?thesis by simp
qed

theorem knn_rows_sorted_without_self_witness:
  "topo_gpu_knn ideal_env (Some [0, 1, 3]) 3 1 2 (Some (replicate 6 0)) (Some (replicate 6 0)) =
     (TOPO_SUCCESS, Some [1, 3, 1, 2, 2, 3], Some [1, 2, 0, 2, 1, 0]) \<and>
   (1::nat) < nat 3 \<and>
   sorted (take (nat 2) (drop (1 * nat 2) [1, 3, 1, 2, 2, 3 :: real])) \<and>
   [1, 2, 0, 2, 1, 0 :: int] ! (1 * nat 2 + 0) \<noteq> int 1 \<and>
   [1, 2, 0, 2, 1, 0 :: int] ! (1 * nat 2 + 1) \<noteq> int 1"
proof -
  have call: "topo_gpu_knn ideal_env (Some [0, 1, 3]) 3 1 2 (Some (replicate 6 0)) (Some (replicate 6 0)) =
                (TOPO_SUCCESS, Some [1, 3, 1, 2, 2, 3], Some [1, 2, 0, 2, 1, 0])"
    by (simp add: topo_gpu_knn_def Let_def ideal_env_def line_points_knn_kernel memcpy_to_host_def)
  have i: "(1::nat) < nat 3" by simp
  note rows = knn_rows_sorted_without_self[OF call i]
  from rows have a: "\<And>r. r < nat 2 \<Longrightarrow> [1, 2, 0, 2, 1, 0 :: int] ! (1 * nat 2 + r) \<noteq> int 1"
    by blast
  have "(0::nat) < nat 2" "(1::nat) < nat 2" by simp_all
  from a[OF this(1)] a[OF this(2)] rows call i show ?thesis by blast
qed


section \<open>Kernel launches\<close>

text \<open>
  The host functions compute the grid with C \<open>int\<close> arithmetic:
  \<open>int blocks = (n + threads - 1) / threads\<close>. \<open>wrap32\<close> is the two's-complement
  wrap-around of a 32-bit \<open>int\<close>, \<open>c_div\<close> the division of C (towards zero). The launch
  converts \<open>blocks\<close> to the \<open>unsigned int\<close> of \<open>dim3\<close>; the runtime rejects an empty grid and
  one beyond the limit \<open>2^31 - 1\<close> of the x dimension, which \<open>cudaGetLastError\<close> reports.
\<close>

definition wrap32 :: "int \<Rightarrow> int" where
  "wrap32 x = (x + 2 ^ 31) mod 2 ^ 32 - 2 ^ 31"

definition c_div :: "int \<Rightarrow> int \<Rightarrow> int" where
  "c_div a b = sgn a * sgn b * (\<bar>a\<bar> div \<bar>b\<bar>)"

definition launch_blocks :: "int \<Rightarrow> int" where
  "launch_blocks n = c_div (wrap32 (n + int threads - 1)) (int threads)"

definition grid_dim :: "int \<Rightarrow> nat" where
  "grid_dim blocks = nat (blocks mod 2 ^ 32)"

definition grid_ok :: "nat \<Rightarrow> bool" where
  "grid_ok g \<longleftrightarrow> 0 < g \<and> g \<le> 2 ^ 31 - 1"

text \<open>The threads of a launch, as pairs \<open>(blockIdx.x, threadIdx.x)\<close>.\<close>

definition grid_threads :: "nat \<Rightarrow> (nat \<times> nat) list" where
  "grid_threads g = List.product [0..<g] [0..<threads]"

text \<open>\<open>int i = blockIdx.x * blockDim.x + threadIdx.x\<close>: an unsigned product, read as an \<open>int\<close>.\<close>

definition global_index :: "nat \<times> nat \<Rightarrow> int" where
  "global_index bt = wrap32 (int ((fst bt * threads + snd bt) mod 2 ^ 32))"

section \<open>Density filtration (density.cu)\<close>

definition density_filtration_kernel :: "real list \<Rightarrow> int \<Rightarrow> real list \<Rightarrow> nat \<times> nat \<Rightarrow> real list" where
  "density_filtration_kernel kth_distances n out_filtration bt =
     (let i = global_index bt in
      if i \<ge> n then out_filtration
      else (let d = kth_distances ! nat i;
                d = (if d < 1 / 10 ^ 10 then 1 / 10 ^ 10 else d)
            in out_filtration[nat i := - 1 / d]))"

text \<open>
  The threads of the launch write distinct cells, so they are run in launch order. The
  device output array starts with the contents the allocation left in it.
\<close>

definition topo_gpu_density_filtration :: "cuda_env \<Rightarrow> real list option \<Rightarrow> int \<Rightarrow>
    real list option \<Rightarrow> TopoError \<times> real list option" where
  "topo_gpu_density_filtration env kth_distances n out_filtration =
     (if kth_distances = None \<or> out_filtration = None
        then (TOPO_ERROR_INVALID_ARGUMENT, out_filtration)
      else if n \<le> 0
        then (TOPO_ERROR_INVALID_ARGUMENT, out_filtration)
      else if device_count env = 0
        then (TOPO_ERROR_CUDA_NOT_AVAILABLE, out_filtration)
      else if \<not> malloc_ok env 0 \<or> \<not> malloc_ok env 1
        then (TOPO_ERROR_CUDA_MALLOC, out_filtration)
      else if \<not> memcpy_ok env 0
        then (TOPO_ERROR_CUDA_MEMCPY, out_filtration)
      else
        (let d_kth = take (nat n) (the kth_distances);
             d_out = map (uninit_real env) [0..<nat n];
             blocks = launch_blocks n
         in if \<not> grid_ok (grid_dim blocks) \<or> \<not> launch_ok env
              then (TOPO_ERROR_CUDA_KERNEL, out_filtration)
            else
              (let d_out = fold (\<lambda>bt out. density_filtration_kernel d_kth n out bt)
                                (grid_threads (grid_dim blocks)) d_out
               in if \<not> memcpy_ok env 1
                    then (TOPO_ERROR_CUDA_MEMCPY, out_filtration)
                  else (TOPO_SUCCESS, Some (memcpy_to_host (the out_filtration) d_out (nat n))))))"

section \<open>Radius query (radius_query.cu)\<close>





lemma global_index_small:
  "b * threads + t < 2 ^ 31 \<Longrightarrow> global_index (b, t) = int (b * threads + t)"
proof -
  assume a: "b * threads + t < 2 ^ 31"
  let ?x = "int (b * threads + t)"
  have "?x < int (2 ^ 31)" using a by (simp only: of_nat_less_iff)
  then have x: "0 \<le> ?x" "?x < 2 ^ 31" by auto
  have "(b * threads + t) mod 2 ^ 32 = b * threads + t" using a by simp
  then have "global_index (b, t) = wrap32 ?x" by (simp add: global_index_def)
  also have "\<dots> = ?x"
  proof -
    have "(?x + 2 ^ 31) mod 2 ^ 32 = ?x + 2 ^ 31"
      using x by (intro mod_pos_pos_trivial) auto
    then show ?thesis by (simp add: wrap32_def)
  qed
  finally show ?thesis .
qed

lemma launch_blocks_cover:
  assumes "0 < n" "n \<le> 2147483647" "grid_ok (grid_dim (launch_blocks n))"
  shows "nat n \<le> grid_dim (launch_blocks n) * threads \<and> grid_dim (launch_blocks n) * threads < 2 ^ 31"
proof (cases "n + 255 < 2 ^ 31")
  case True
  have "(n + 255 + 2 ^ 31) mod 2 ^ 32 = n + 255 + 2 ^ 31"
    using assms True by (intro mod_pos_pos_trivial) auto
  then have w: "wrap32 (n + 255) = n + 255" "wrap32 (255 + n) = n + 255"
    by (simp_all add: wrap32_def add.commute)
  have pos: "0 < n + 255" using assms by simp
  have lb: "launch_blocks n = (n + 255) div 256"
    using pos by (simp add: launch_blocks_def threads_def w c_div_def)
  have b0: "0 \<le> (n + 255) div 256" using pos by simp
  have b1: "(n + 255) div 256 < 2 ^ 32" using True by simp
  have gd: "grid_dim (launch_blocks n) = nat ((n + 255) div 256)"
    using b0 b1 by (simp add: lb grid_dim_def)
  have "n \<le> (n + 255) div 256 * 256" by simp
  moreover have "(n + 255) div 256 * 256 \<le> n + 255" by simp
  ultimately have "nat n \<le> nat ((n + 255) div 256) * 256"
      "nat ((n + 255) div 256) * 256 < 2 ^ 31"
    using True b0 by (simp_all add: nat_le_iff nat_less_iff)
  then show ?thesis by (simp add: gd threads_def)
next
  case False
  define a where "a = n + 255 - 2 ^ 32"
  have a: "- (2 ^ 31) \<le> a" "a \<le> - (2 ^ 31) + 254" using False assms by (auto simp: a_def)
  have "(n + 255 + 2 ^ 31) mod 2 ^ 32 = (a + 2 ^ 31 + 2 ^ 32) mod 2 ^ 32"
    by (simp add: a_def)
  also have "\<dots> = (a + 2 ^ 31) mod 2 ^ 32" by (rule mod_add_self2)
  also have "\<dots> = a + 2 ^ 31" using a by (intro mod_pos_pos_trivial) auto
  finally have w: "wrap32 (n + 255) = a" "wrap32 (255 + n) = a"
    by (simp_all add: wrap32_def add.commute)
  have neg: "a < 0" using a by simp
  have lb: "launch_blocks n = - ((- a) div 256)"
    using neg by (simp add: launch_blocks_def threads_def w c_div_def)
  have q1: "(- a) div 256 \<le> 2 ^ 23"
  proof -
    have "- a \<le> 2 ^ 31" using a by simp
    then have "(- a) div 256 \<le> 2 ^ 31 div 256" by (rule zdiv_mono1) simp
    then show ?thesis by simp
  qed
  have q0: "0 < (- a) div 256"
  proof -
    have "256 \<le> - a" using a by simp
    then show ?thesis by (simp add: pos_imp_zdiv_pos_iff)
  qed
  have "(- ((- a) div 256)) mod 2 ^ 32 = (2 ^ 32 - (- a) div 256) mod 2 ^ 32"
    by (metis uminus_add_conv_diff mod_add_self2)
  also have "\<dots> = 2 ^ 32 - (- a) div 256"
    using q0 q1 by (intro mod_pos_pos_trivial) auto
  finally have "grid_dim (launch_blocks n) = nat (2 ^ 32 - (- a) div 256)"
    by (simp add: lb grid_dim_def)
  moreover have "2 ^ 32 - (- a) div 256 > 2 ^ 31 - 1" using q1 by simp
  ultimately have "\<not> grid_ok (grid_dim (launch_blocks n))"
    by (simp add: grid_ok_def)
  with assms show ?thesis by simp
qed

lemma clamp_is_max: "(if x < e then e else x) = max x (e::real)"
  by (simp add: max_def)

lemma density_kernel_fold:
  assumes "length out = nat n" "\<And>b t. (b, t) \<in> set ts \<Longrightarrow> b * threads + t < 2 ^ 31"
  shows "length (fold (\<lambda>bt out. density_filtration_kernel kth n out bt) ts out) = nat n \<and>
         (\<forall>i<nat n. fold (\<lambda>bt out. density_filtration_kernel kth n out bt) ts out ! i =
            (if int i \<in> global_index ` set ts then - 1 / max (kth ! i) (1 / 10 ^ 10) else out ! i))"
  using assms
proof (induction ts arbitrary: out)
  case Nil
  then show ?case by simp
next
  case (Cons bt ts)
  obtain b t where bt: "bt = (b, t)" by (cases bt)
  define j where "j = b * threads + t"
  have small: "b * threads + t < 2 ^ 31" using Cons.prems(2)[of b t] bt by simp
  have gi: "global_index bt = int j"
    unfolding bt j_def using small by (rule global_index_small)
  let ?out = "density_filtration_kernel kth n out bt"
  have len: "length ?out = nat n"
    using Cons.prems(1) by (simp add: density_filtration_kernel_def Let_def)
  have step: "\<forall>i<nat n. ?out ! i =
      (if int i = global_index bt then - 1 / max (kth ! i) (1 / 10 ^ 10) else out ! i)"
  proof (intro allI impI)
    fix i assume i: "i < nat n"
    show "?out ! i = (if int i = global_index bt then - 1 / max (kth ! i) (1 / 10 ^ 10) else out ! i)"
    proof (cases "global_index bt \<ge> n")
      case True
      with i show ?thesis by (auto simp: density_filtration_kernel_def Let_def)
    next
      case False
      then have "?out = out[nat (global_index bt) := - 1 / max (kth ! nat (global_index bt)) (1 / 10 ^ 10)]"
        unfolding density_filtration_kernel_def Let_def clamp_is_max
        by simp
      then have "?out = out[j := - 1 / max (kth ! j) (1 / 10 ^ 10)]"
        by (simp only: gi nat_int)
      then show ?thesis
        using i Cons.prems(1) by (simp only: gi of_nat_eq_iff nth_list_update split: if_splits) simp
    qed
  qed
  from Cons.IH[OF len] Cons.prems(2)
  have IH: "length (fold (\<lambda>bt out. density_filtration_kernel kth n out bt) ts ?out) = nat n"
    "\<forall>i<nat n. fold (\<lambda>bt out. density_filtration_kernel kth n out bt) ts ?out ! i =
            (if int i \<in> global_index ` set ts then - 1 / max (kth ! i) (1 / 10 ^ 10) else ?out ! i)"
    by auto
  show ?case using IH step by auto
qed

lemma grid_threads_cover:
  assumes "i < g * threads"
  shows "(i div threads, i mod threads) \<in> set (grid_threads g)"
proof -
  have "i div threads < g" using assms by (simp add: less_mult_imp_div_less)
  moreover have "i mod threads < threads" by (simp add: threads_def)
  ultimately show ?thesis by (simp add: grid_threads_def)
qed

lemma grid_threads_small:
  assumes "(b, t) \<in> set (grid_threads g)" "g * threads < 2 ^ 31"
  shows "b * threads + t < 2 ^ 31"
proof -
  from assms(1) have "b < g" "t < threads" by (auto simp: grid_threads_def)
  then have "b * threads + t < Suc b * threads" by simp
  also have "\<dots> \<le> g * threads" using \<open>b < g\<close> by (intro mult_le_mono1) simp
  finally show ?thesis using assms(2) by simp
qed

lemma grid_threads_index_image:
  assumes "i < g * threads" "g * threads < 2 ^ 31"
  shows "int i \<in> global_index ` set (grid_threads g)"
proof -
  have "global_index (i div threads, i mod threads) = int (i div threads * threads + i mod threads)"
    using assms by (intro global_index_small) simp
  then have "global_index (i div threads, i mod threads) = int i" by simp
  with grid_threads_cover[OF assms(1)] show ?thesis by force
qed

text \<open>
  Claim C5. After a successful call of \<open>topo_gpu_density_filtration\<close> on an array \<open>kth\<close> of
  length \<open>n\<close> (success needs \<open>n \<ge> 1\<close>), entry \<open>i\<close> of the output is
  \<open>-1 / max(kth[i], 1e-10)\<close> for every \<open>i < n\<close>. \<open>n\<close> is a C \<open>int\<close>, hence at most
  \<open>2^31 - 1\<close>; where \<open>n + 255\<close> wraps around, the launch is rejected and the call is not
  successful.
\<close>

theorem density_filtration_values:
  assumes "topo_gpu_density_filtration env (Some kth) n (Some out) = (TOPO_SUCCESS, Some F)"
    and "length kth = nat n" and "n \<le> 2147483647" and "i < nat n"
  shows "F ! i = - 1 / max (kth ! i) (1 / 10 ^ 10)"
proof -
  let ?g = "grid_dim (launch_blocks n)"
  let ?dev = "fold (\<lambda>bt out. density_filtration_kernel (take (nat n) kth) n out bt)
                   (grid_threads ?g) (map (uninit_real env) [0..<nat n])"
  from assms(1) have n: "0 < n" and ok: "grid_ok ?g"
    and F: "F = memcpy_to_host out ?dev (nat n)"
    by (auto simp: topo_gpu_density_filtration_def Let_def split: if_splits)
  from launch_blocks_cover[OF n assms(3) ok]
  have cover: "nat n \<le> ?g * threads" and small: "?g * threads < 2 ^ 31" by auto
  have "length (map (uninit_real env) [0..<nat n]) = nat n" by simp
  from density_kernel_fold[OF this grid_threads_small[OF _ small], of "grid_threads ?g" "take (nat n) kth"]
  have len: "length ?dev = nat n"
    and val: "\<forall>i<nat n. ?dev ! i =
        (if int i \<in> global_index ` set (grid_threads ?g)
         then - 1 / max (take (nat n) kth ! i) (1 / 10 ^ 10)
         else map (uninit_real env) [0..<nat n] ! i)"
    by auto
  have "int i \<in> global_index ` set (grid_threads ?g)"
    using assms(4) cover small by (intro grid_threads_index_image) auto
  with val assms(4) have "?dev ! i = - 1 / max (kth ! i) (1 / 10 ^ 10)" by simp
  moreover have "F ! i = ?dev ! i"
    using assms(4) len by (simp add: F memcpy_to_host_def nth_append)
  ultimately show ?thesis by simp
qed

lemma density_filtration_length:
  assumes "topo_gpu_density_filtration env (Some kth) n (Some out) = (TOPO_SUCCESS, Some F)"
    and "n \<le> 2147483647" and "length out = nat n"
  shows "length F = nat n"
proof -
  let ?g = "grid_dim (launch_blocks n)"
  let ?dev = "fold (\<lambda>bt out. density_filtration_kernel (take (nat n) kth) n out bt)
                   (grid_threads ?g) (map (uninit_real env) [0..<nat n])"
  from assms(1) have n: "0 < n" and ok: "grid_ok ?g"
    and F: "F = memcpy_to_host out ?dev (nat n)"
    by (auto simp: topo_gpu_density_filtration_def Let_def split: if_splits)
  from launch_blocks_cover[OF n assms(2) ok]
  have small: "?g * threads < 2 ^ 31" by auto
  have "length (map (uninit_real env) [0..<nat n]) = nat n" by simp
  from density_kernel_fold[OF this grid_threads_small[OF _ small], of "grid_threads ?g" "take (nat n) kth"]
  have len: "length ?dev = nat n" by auto
  then show ?thesis using assms(3) by (simp add: F memcpy_to_host_def)
qed

theorem density_filtration_values_witness:
  "topo_gpu_density_filtration ideal_env (Some [2, 0, 1 / 10 ^ 11]) 3 (Some [0, 0, 0]) =
     (TOPO_SUCCESS, Some [- 1 / 2, - (10 ^ 10), - (10 ^ 10)]) \<and>
   length [2, 0, 1 / 10 ^ 11 :: real] = nat 3 \<and> (3::int) \<le> 2147483647 \<and> (1::nat) < nat 3 \<and>
   [- 1 / 2, - (10 ^ 10), - (10 ^ 10)] ! 1 = - 1 / max ([2, 0, 1 / 10 ^ 11] ! 1) (1 / 10 ^ 10 :: real)"
proof -
  let ?kth = "[2, 0, 1 / 10 ^ 11 :: real]"
  let ?call = "topo_gpu_density_filtration ideal_env (Some ?kth) 3 (Some [0, 0, 0])"
  define F where "F = the (snd ?call)"
  have g: "grid_dim (launch_blocks 3) = 1"
    by (simp add: launch_blocks_def threads_def wrap32_def c_div_def grid_dim_def)
  have call: "?call = (TOPO_SUCCESS, Some F)"
    unfolding F_def
    by (simp add: topo_gpu_density_filtration_def Let_def ideal_env_def g grid_ok_def)
  have len: "length ?kth = nat 3" and n: "(3::int) \<le> 2147483647" by simp_all
  have lF: "length F = 3"
    using density_filtration_length[OF call n] by simp
  have "F ! 0 = - 1 / 2"
    using density_filtration_values[OF call len n, of 0] by simp
  moreover have "F ! 1 = - (10 ^ 10)"
    using density_filtration_values[OF call len n, of 1] by simp
  moreover have "F ! 2 = - (10 ^ 10)"
    using density_filtration_values[OF call len n, of 2] by simp
  ultimately have "F = [- 1 / 2, - (10 ^ 10), - (10 ^ 10)]"
    using lF by (intro nth_equalityI) (auto simp: less_Suc_eq numeral_3_eq_3 numeral_2_eq_2)
  with call show ?thesis by simp
qed









section \<open>Sorting\<close>

text \<open>
  \<open>qsort\<close> with a C comparator (negative, zero or positive). The C library leaves the
  order of elements that compare equal unspecified; the model is a stable insertion sort,
  which keeps them in input order (as the merge sort of glibc does). The radix sort of
  CUB used on the device path is stable as well: \<open>SortPairs\<close> sorts the keys and carries
  the values along.
\<close>

fun insert_by :: "('a \<Rightarrow> 'a \<Rightarrow> int) \<Rightarrow> 'a \<Rightarrow> 'a list \<Rightarrow> 'a list" where
  "insert_by cmp x [] = [x]"
| "insert_by cmp x (y # ys) = (if cmp x y \<le> 0 then x # y # ys else y # insert_by cmp x ys)"

definition qsort :: "('a \<Rightarrow> 'a \<Rightarrow> int) \<Rightarrow> 'a list \<Rightarrow> 'a list" where
  "qsort cmp xs = foldr (insert_by cmp) xs []"

definition key_compare :: "real \<times> nat \<Rightarrow> real \<times> nat \<Rightarrow> int" where
  "key_compare a b = (if fst a < fst b then - 1 else if fst a > fst b then 1 else 0)"

definition DeviceRadixSort_SortPairs :: "real list \<Rightarrow> nat list \<Rightarrow> real list \<times> nat list" where
  "DeviceRadixSort_SortPairs keys vals =
     (let s = qsort key_compare (zip keys vals) in (map fst s, map snd s))"

section \<open>H0 persistence (persistence_h0.cu)\<close>

record UnionFind =
  parent :: "nat list"
  rank :: "nat list"
  birth :: "real list"

definition UnionFind_init :: "nat \<Rightarrow> real list \<Rightarrow> UnionFind" where
  "UnionFind_init n vertex_filt =
     \<lparr>parent = [0..<n], rank = replicate n 0, birth = map (\<lambda>i. vertex_filt ! i) [0..<n]\<rparr>"

text \<open>
  \<open>find\<close> with path halving. The result is \<open>None\<close> when an index is outside the arrays
  (undefined behaviour in C) or when the loop does not terminate.
\<close>

partial_function (option) UnionFind_find :: "UnionFind \<Rightarrow> nat \<Rightarrow> (nat \<times> UnionFind) option" where
  "UnionFind_find uf x =
     (if x \<ge> length (parent uf) then None
      else if parent uf ! x \<noteq> x then
        (if parent uf ! x \<ge> length (parent uf) then None
         else (let uf' = uf\<lparr>parent := (parent uf)[x := parent uf ! (parent uf ! x)]\<rparr>
               in UnionFind_find uf' (parent uf' ! x)))
      else Some (x, uf))"

declare UnionFind_find.simps [code]

text \<open>
  \<open>unite\<close> returns whether a merge occurred; the two reference parameters
  \<open>dying_birth\<close> and \<open>death_filt\<close> are set only then, so the model returns them as an
  optional pair.
\<close>

definition UnionFind_unite :: "UnionFind \<Rightarrow> nat \<Rightarrow> nat \<Rightarrow> real \<Rightarrow> ((real \<times> real) option \<times> UnionFind) option" where
  "UnionFind_unite uf a b edge_filt =
     (case UnionFind_find uf a of
        None \<Rightarrow> None
      | Some (ra, uf1) \<Rightarrow>
          (case UnionFind_find uf1 b of
             None \<Rightarrow> None
           | Some (rb, uf2) \<Rightarrow>
               if ra = rb then Some (None, uf2)
               else
                 (let (dying_birth, ra, rb) =
                        (if birth uf2 ! ra < birth uf2 ! rb then (birth uf2 ! rb, ra, rb)
                         else (birth uf2 ! ra, rb, ra));
                      death_filt = edge_filt;
                      (ra, rb) = (if rank uf2 ! ra < rank uf2 ! rb then (rb, ra) else (ra, rb));
                      uf3 = uf2\<lparr>parent := (parent uf2)[rb := ra]\<rparr>;
                      uf4 = (if rank uf3 ! ra = rank uf3 ! rb
                             then uf3\<lparr>rank := (rank uf3)[ra := rank uf3 ! ra + 1]\<rparr> else uf3)
                  in Some (Some (dying_birth, death_filt), uf4))))"

record EdgeSortKey =
  filt :: real
  src :: nat
  dst :: nat

definition edge_compare :: "EdgeSortKey \<Rightarrow> EdgeSortKey \<Rightarrow> int" where
  "edge_compare a b = (if filt a < filt b then - 1 else if filt a > filt b then 1 else 0)"

text \<open>
  The union-find loop over the sorted edges; the pairs are collected in the order in
  which the loop writes them to \<open>out_births[count]\<close> and \<open>out_deaths[count]\<close>.
\<close>

fun h0_loop :: "UnionFind \<Rightarrow> EdgeSortKey list \<Rightarrow> (real \<times> real) list \<Rightarrow> (real \<times> real) list option" where
  "h0_loop uf [] out = Some out"
| "h0_loop uf (e # es) out =
     (case UnionFind_unite uf (src e) (dst e) (filt e) of
        None \<Rightarrow> None
      | Some (None, uf') \<Rightarrow> h0_loop uf' es out
      | Some (Some (dying_birth, death), uf') \<Rightarrow>
          if dying_birth \<noteq> death then h0_loop uf' es (out @ [(dying_birth, death)])
          else h0_loop uf' es out)"

text \<open>The sorted edge array: on the device by CUB, on the host by \<open>qsort\<close>.\<close>

definition h0_sorted_edges :: "cuda_env \<Rightarrow> EdgeSortKey list \<Rightarrow> EdgeSortKey list" where
  "h0_sorted_edges env edges =
     (if device_count env > 0
      then (let sorted_indices = snd (DeviceRadixSort_SortPairs (map filt edges) [0..<length edges])
            in map (\<lambda>i. edges ! (sorted_indices ! i)) [0..<length edges])
      else qsort edge_compare edges)"

text \<open>
  The entry point. The edge arrays have \<open>m\<close> entries each and the vertex array \<open>n\<close>. The
  result is the error code with the contents of \<open>out_births\<close>, \<open>out_deaths\<close> and
  \<open>out_count\<close>; the pairs overwrite the first \<open>count\<close> cells of the caller's arrays. A
  negative \<open>m\<close> makes the allocation of the edge array fail.
\<close>

definition topo_gpu_persistence_h0 :: "cuda_env \<Rightarrow> real list option \<Rightarrow> nat list option \<Rightarrow>
    nat list option \<Rightarrow> real list option \<Rightarrow> int \<Rightarrow> int \<Rightarrow> real list option \<Rightarrow> real list option \<Rightarrow>
    int option \<Rightarrow> (TopoError \<times> real list option \<times> real list option \<times> int option) option" where
  "topo_gpu_persistence_h0 env vertex_filt edge_src edge_dst edge_filt n m out_births out_deaths out_count =
     (if vertex_filt = None \<or> out_births = None \<or> out_deaths = None \<or> out_count = None
        then Some (TOPO_ERROR_INVALID_ARGUMENT, out_births, out_deaths, out_count)
      else if n \<le> 0
        then Some (TOPO_ERROR_INVALID_ARGUMENT, out_births, out_deaths, out_count)
      else if m = 0
        then Some (TOPO_SUCCESS, out_births, out_deaths, Some 0)
      else if edge_src = None \<or> edge_dst = None \<or> edge_filt = None
        then Some (TOPO_ERROR_INVALID_ARGUMENT, out_births, out_deaths, Some 0)
      else if m < 0 \<or> \<not> host_malloc_ok env
        then Some (TOPO_ERROR_INTERNAL, out_births, out_deaths, Some 0)
      else
        (let edges = map (\<lambda>i. \<lparr>filt = the edge_filt ! i, src = the edge_src ! i, dst = the edge_dst ! i\<rparr>)
                         [0..<nat m];
             edges = h0_sorted_edges env edges;
             uf = UnionFind_init (nat n) (the vertex_filt)
         in case h0_loop uf edges [] of
              None \<Rightarrow> None
            | Some pairs \<Rightarrow>
                Some (TOPO_SUCCESS,
                      Some (memcpy_to_host (the out_births) (map fst pairs) (length pairs)),
                      Some (memcpy_to_host (the out_deaths) (map snd pairs) (length pairs)),
                      Some (int (length pairs)))))"


section \<open>H1 persistence (persistence_h1.cu)\<close>

text \<open>
  The fields of \<open>EdgeInfo\<close> and \<open>TriSortKey\<close> carry a prefix, since \<open>filt\<close>, \<open>src\<close> and
  \<open>dst\<close> are the fields of \<open>EdgeSortKey\<close>.
\<close>

record TriSortKey =
  t_filt :: real
  v0 :: nat
  v1 :: nat
  v2 :: nat
  original_idx :: nat

record EdgeInfo =
  e_src :: nat
  e_dst :: nat
  e_filt :: real
  sorted_idx :: nat

definition tri_compare :: "TriSortKey \<Rightarrow> TriSortKey \<Rightarrow> int" where
  "tri_compare a b = (if t_filt a < t_filt b then - 1 else if t_filt a > t_filt b then 1 else 0)"

definition edge_info_compare :: "EdgeInfo \<Rightarrow> EdgeInfo \<Rightarrow> int" where
  "edge_info_compare a b = (if e_filt a < e_filt b then - 1 else if e_filt a > e_filt b then 1 else 0)"

text \<open>
  \<open>find_edge\<close>: the first index of the sorted edge array whose end points, put in
  ascending order, are \<open>(u, v)\<close>; \<open>None\<close> stands for the result \<open>-1\<close>.
\<close>

fun find_edge_from :: "EdgeInfo list \<Rightarrow> nat \<Rightarrow> nat \<Rightarrow> nat \<Rightarrow> nat option" where
  "find_edge_from [] i u v = None"
| "find_edge_from (e # es) i u v =
     (let su = e_src e; sv = e_dst e;
          (su, sv) = (if su > sv then (sv, su) else (su, sv))
      in if su = u \<and> sv = v then Some i else find_edge_from es (i + 1) u v)"

definition find_edge :: "EdgeInfo list \<Rightarrow> nat \<Rightarrow> nat \<Rightarrow> nat option" where
  "find_edge sorted_edges u v =
     (let (u, v) = (if u > v then (v, u) else (u, v)) in find_edge_from sorted_edges 0 u v)"

text \<open>The exchange sort that puts the row indices of a column in descending order.\<close>

function sort_desc_inner :: "nat list \<Rightarrow> nat \<Rightarrow> nat \<Rightarrow> nat list" where
  "sort_desc_inner col a b =
     (if b < length col
      then sort_desc_inner (if col ! a < col ! b then col[a := col ! b, b := col ! a] else col) a (b + 1)
      else col)"
  by pat_completeness auto
termination
  by (relation "measure (\<lambda>(col, a, b). length col - b)") auto

declare sort_desc_inner.simps [simp del]

lemma length_sort_desc_inner [simp]: "length (sort_desc_inner col a b) = length col"
  by (induction col a b rule: sort_desc_inner.induct) (subst sort_desc_inner.simps, auto)

function sort_desc_outer :: "nat list \<Rightarrow> nat \<Rightarrow> nat list" where
  "sort_desc_outer col a =
     (if a < length col then sort_desc_outer (sort_desc_inner col a (a + 1)) (a + 1) else col)"
  by pat_completeness auto
termination
  by (relation "measure (\<lambda>(col, a). length col - a)") auto

declare sort_desc_outer.simps [simp del]

text \<open>The boundary column of a triangle: the indices of those of its three edges that exist.\<close>

definition boundary_column :: "EdgeInfo list \<Rightarrow> TriSortKey \<Rightarrow> nat list" where
  "boundary_column edges tri =
     (let v = [v0 tri, v1 tri, v2 tri];
          pairs = [(v ! 0, v ! 1), (v ! 0, v ! 2), (v ! 1, v ! 2)];
          col = fold (\<lambda>p col. case find_edge edges (fst p) (snd p) of
                                 Some eidx \<Rightarrow> col @ [eidx]
                               | None \<Rightarrow> col) pairs []
      in sort_desc_outer col 0)"

text \<open>
  The merge of two columns: equal heads cancel, the larger head is emitted, and what is
  left of either column is appended.
\<close>

fun merge_columns :: "nat list \<Rightarrow> nat list \<Rightarrow> nat list" where
  "merge_columns (a # as) (b # bs) =
     (if a > b then a # merge_columns as (b # bs)
      else if a < b then b # merge_columns (a # as) bs
      else merge_columns as bs)"
| "merge_columns as [] = as"
| "merge_columns [] bs = bs"

record h1_state =
  boundary :: "nat list list"
  pivot_col :: "int list"
  out_pairs :: "(real \<times> real) list"

text \<open>
  The inner loop of the reduction for column \<open>col\<close>. The result is \<open>None\<close> when the loop
  does not terminate.
\<close>

partial_function (option) reduce_column :: "EdgeInfo list \<Rightarrow> TriSortKey list \<Rightarrow> nat \<Rightarrow> h1_state \<Rightarrow> h1_state option" where
  "reduce_column edges tris col st =
     (if length (boundary st ! col) > 0 then
        (let pivot = boundary st ! col ! 0 in
         if pivot_col st ! pivot < 0 then
           Some (st\<lparr>pivot_col := (pivot_col st)[pivot := int col],
                    out_pairs := out_pairs st @ [(e_filt (edges ! pivot), t_filt (tris ! col))]\<rparr>)
         else
           (let other = nat (pivot_col st ! pivot);
                merged = merge_columns (boundary st ! col) (boundary st ! other)
            in reduce_column edges tris col (st\<lparr>boundary := (boundary st)[col := merged]\<rparr>)))
      else Some st)"

declare reduce_column.simps [code]

fun h1_loop :: "EdgeInfo list \<Rightarrow> TriSortKey list \<Rightarrow> nat list \<Rightarrow> h1_state \<Rightarrow> h1_state option" where
  "h1_loop edges tris [] st = Some st"
| "h1_loop edges tris (col # cols) st =
     (case reduce_column edges tris col st of
        None \<Rightarrow> None
      | Some st' \<Rightarrow> h1_loop edges tris cols st')"

text \<open>
  The entry point. The edge arrays have \<open>m\<close> entries each and the triangle arrays \<open>t\<close>.
  With a negative \<open>m\<close> or \<open>t\<close> the unchecked allocations and \<open>qsort\<close> are undefined, which
  the model renders as \<open>None\<close>, as it does a reduction that does not terminate.
\<close>

definition topo_gpu_persistence_h1 :: "nat list option \<Rightarrow> nat list option \<Rightarrow> real list option \<Rightarrow>
    nat list option \<Rightarrow> nat list option \<Rightarrow> nat list option \<Rightarrow> real list option \<Rightarrow> int \<Rightarrow> int \<Rightarrow>
    real list option \<Rightarrow> real list option \<Rightarrow> int option \<Rightarrow>
    (TopoError \<times> real list option \<times> real list option \<times> int option) option" where
  "topo_gpu_persistence_h1 edge_src edge_dst edge_filt tri_v0 tri_v1 tri_v2 tri_filt m t
       out_births out_deaths out_count =
     (if out_births = None \<or> out_deaths = None \<or> out_count = None
        then Some (TOPO_ERROR_INVALID_ARGUMENT, out_births, out_deaths, out_count)
      else if t = 0 \<or> m = 0
        then Some (TOPO_SUCCESS, out_births, out_deaths, Some 0)
      else if edge_src = None \<or> edge_dst = None \<or> edge_filt = None
        then Some (TOPO_ERROR_INVALID_ARGUMENT, out_births, out_deaths, Some 0)
      else if tri_v0 = None \<or> tri_v1 = None \<or> tri_v2 = None \<or> tri_filt = None
        then Some (TOPO_ERROR_INVALID_ARGUMENT, out_births, out_deaths, Some 0)
      else if m < 0 \<or> t < 0 then None
      else
        (let edges = map (\<lambda>i. \<lparr>e_src = the edge_src ! i, e_dst = the edge_dst ! i,
                                 e_filt = the edge_filt ! i, sorted_idx = 0\<rparr>) [0..<nat m];
             edges = qsort edge_info_compare edges;
             edges = map (\<lambda>i. (edges ! i)\<lparr>sorted_idx := i\<rparr>) [0..<nat m];
             tris = map (\<lambda>i. \<lparr>t_filt = the tri_filt ! i, v0 = the tri_v0 ! i, v1 = the tri_v1 ! i,
                                v2 = the tri_v2 ! i, original_idx = i\<rparr>) [0..<nat t];
             tris = qsort tri_compare tris;
             boundary = map (\<lambda>col. boundary_column edges (tris ! col)) [0..<nat t];
             pivot_col = replicate (nat m) (- 1)
         in case h1_loop edges tris [0..<nat t]
                   \<lparr>boundary = boundary, pivot_col = pivot_col, out_pairs = []\<rparr> of
              None \<Rightarrow> None
            | Some st \<Rightarrow>
                Some (TOPO_SUCCESS,
                      Some (memcpy_to_host (the out_births) (map fst (out_pairs st)) (length (out_pairs st))),
                      Some (memcpy_to_host (the out_deaths) (map snd (out_pairs st)) (length (out_pairs st))),
                      Some (int (length (out_pairs st))))))"


section \<open>The specified orders and the component count\<close>




text \<open>
  The connected component of a vertex in the graph on \<open>{0..<n}\<close> with the given edges, and
  the number of components.
\<close>

definition component :: "nat \<Rightarrow> (nat \<times> nat) list \<Rightarrow> nat \<Rightarrow> nat set" where
  "component n es x = {y. y < n \<and> (x, y) \<in> (set es \<union> (set es)\<inverse>)\<^sup>*}"

definition num_components :: "nat \<Rightarrow> (nat \<times> nat) list \<Rightarrow> nat" where
  "num_components n es = card (component n es ` {0..<n})"


section \<open>Union by rank against the elder rule\<close>

text \<open>
  Claim C2. After a merge the root of the merged component should hold the smaller of the
  two births, so that the birth at \<open>find(x)\<close> is the minimum vertex filtration of the
  component of \<open>x\<close>. The code selects the survivor by birth and then swaps the two roots
  again when the survivor has the smaller rank, without moving the birth: with vertex
  filtrations \<open>3, 2, 1\<close> and the merges \<open>(0, 1)\<close>, \<open>(2, 0)\<close>, the root of \<open>{0, 1, 2}\<close> is vertex
  1 with birth 2, not the minimum 1, and the next merge with a vertex born at \<open>3/2\<close> emits the
  birth 2 where the elder rule gives \<open>3/2\<close>.
\<close>

theorem unite_root_birth_not_minimum:
  "UnionFind_unite (UnionFind_init 3 [3, 2, 1]) 0 1 10 =
     Some (Some (3, 10), \<lparr>parent = [1, 1, 2], rank = [0, 1, 0], birth = [3, 2, 1]\<rparr>) \<and>
   UnionFind_unite \<lparr>parent = [1, 1, 2], rank = [0, 1, 0], birth = [3, 2, 1]\<rparr> 2 0 11 =
     Some (Some (2, 11), \<lparr>parent = [1, 1, 1], rank = [0, 1, 0], birth = [3, 2, 1]\<rparr>) \<and>
   UnionFind_find \<lparr>parent = [1, 1, 1], rank = [0, 1, 0], birth = [3, 2, 1]\<rparr> 2 =
     Some (1, \<lparr>parent = [1, 1, 1], rank = [0, 1, 0], birth = [3, 2, 1]\<rparr>) \<and>
   birth \<lparr>parent = [1, 1, 1], rank = [0, 1, 0], birth = [3, 2, 1]\<rparr> ! 1 = 2 \<and>
   Min (set [3, 2, 1 :: real]) = 1 \<and>
   topo_gpu_persistence_h0 ideal_env (Some [3, 2, 1, 3 / 2]) (Some [0, 2, 3]) (Some [1, 0, 0])
       (Some [10, 11, 12]) 4 3 (Some [0, 0, 0]) (Some [0, 0, 0]) (Some 0) =
     Some (TOPO_SUCCESS, Some [3, 2, 2], Some [10, 11, 12], Some 3)"
  by code_simp

section \<open>Pairs emitted by the H1 reduction\<close>

text \<open>
  Claim C1. Every pair written by \<open>topo_gpu_persistence_h1\<close> should satisfy
  \<open>death > birth\<close>, a pair with \<open>death = birth\<close> never being present, as it is in
  \<open>topo_gpu_persistence_h0\<close>, whose loop skips a merge with \<open>dying_birth = death\<close>. The H1
  loop writes the pair of every column with an unowned pivot without comparing the two
  values: for a triangle and its three edges, all with filtration 1, the call returns the
  pair \<open>(1, 1)\<close>, whose death equals its birth.
\<close>

theorem h1_emits_zero_persistence_pair:
  "topo_gpu_persistence_h1 (Some [0, 0, 1]) (Some [1, 2, 2]) (Some [1, 1, 1])
       (Some [0]) (Some [1]) (Some [2]) (Some [1]) 3 1 (Some [0, 0]) (Some [0, 0]) (Some 5) =
     Some (TOPO_SUCCESS, Some [1, 0], Some [1, 0], Some 1)"
  by code_simp

section \<open>Order of simplices with equal filtration\<close>



lemma set_insert_by [simp]: "set (insert_by cmp x ys) = insert x (set ys)"
  by (induction ys) auto

lemma set_qsort [simp]: "set (qsort cmp xs) = set xs"
  by (induction xs) (auto simp: qsort_def)

lemma length_insert_by [simp]: "length (insert_by cmp x ys) = Suc (length ys)"
  by (induction ys) auto

lemma length_qsort [simp]: "length (qsort cmp xs) = length xs"
  by (induction xs) (auto simp: qsort_def)

lemma qsort_Cons: "qsort cmp (x # xs) = insert_by cmp x (qsort cmp xs)"
  by (simp add: qsort_def)


lemma qsort_is_sort_key:
  assumes "\<And>x y. (cmp x y \<le> 0) = (key x \<le> key y)"
  shows "qsort cmp xs = sort_key key xs"
proof (induction xs)
  case Nil
  then show ?case by (simp add: qsort_def)
next
  case (Cons x xs)
  have "insert_by cmp x ys = insort_key key x ys" for ys
    by (induction ys) (auto simp: assms)
  with Cons show ?case by (simp add: qsort_Cons)
qed

lemma map_insert_by:
  assumes "\<And>q. q \<in> set ps \<Longrightarrow> cmp' p q = cmp (f p) (f q)"
  shows "map f (insert_by cmp' p ps) = insert_by cmp (f p) (map f ps)"
  using assms by (induction ps) auto

lemma map_qsort:
  assumes "\<And>p q. p \<in> set ps \<Longrightarrow> q \<in> set ps \<Longrightarrow> cmp' p q = cmp (f p) (f q)"
  shows "map f (qsort cmp' ps) = qsort cmp (map f ps)"
  using assms
proof (induction ps)
  case Nil
  then show ?case by (simp add: qsort_def)
next
  case (Cons p ps)
  have IH: "map f (qsort cmp' ps) = qsort cmp (map f ps)"
    using Cons.prems by (intro Cons.IH) auto
  have "map f (insert_by cmp' p (qsort cmp' ps)) = insert_by cmp (f p) (map f (qsort cmp' ps))"
    using Cons.prems by (intro map_insert_by) auto
  then show ?case by (simp add: qsort_Cons IH)
qed

lemma h0_sorted_edges_qsort: "h0_sorted_edges env edges = qsort edge_compare edges"
proof (cases "device_count env > 0")
  case False
  then show ?thesis by (simp add: h0_sorted_edges_def)
next
  case True
  let ?ps = "zip (map filt edges) [0..<length edges]"
  let ?f = "\<lambda>p. edges ! snd p"
  let ?si = "map snd (qsort key_compare ?ps)"
  have cmp: "\<And>p q. p \<in> set ?ps \<Longrightarrow> q \<in> set ?ps \<Longrightarrow> key_compare p q = edge_compare (?f p) (?f q)"
    by (auto simp: set_zip key_compare_def edge_compare_def)
  have "map (\<lambda>i. edges ! (?si ! i)) [0..<length edges] = map (\<lambda>j. edges ! j) ?si"
    by (intro nth_equalityI) auto
  also have "\<dots> = map ?f (qsort key_compare ?ps)" by simp
  also have "\<dots> = qsort edge_compare (map ?f ?ps)" using cmp by (rule map_qsort)
  also have "map ?f ?ps = edges"
    by (intro nth_equalityI) auto
  finally show ?thesis
    using True by (simp add: h0_sorted_edges_def DeviceRadixSort_SortPairs_def Let_def)
qed



section \<open>Termination of the column reduction\<close>

text \<open>
  A column that is its own merge with the owner of its pivot is never left: the inner loop
  does not terminate.
\<close>

lemma reduce_column_stuck:
  assumes "0 < length (boundary st ! col)"
    and "\<not> pivot_col st ! (boundary st ! col ! 0) < 0"
    and "merge_columns (boundary st ! col) (boundary st ! nat (pivot_col st ! (boundary st ! col ! 0))) =
           boundary st ! col"
    and "col < length (boundary st)"
  shows "reduce_column edges tris col st = None"
proof (rule ccontr)
  assume "reduce_column edges tris col st \<noteq> None"
  then obtain y where y: "reduce_column edges tris col st = Some y" by auto
  have same: "st\<lparr>boundary := (boundary st)[col := boundary st ! col]\<rparr> = st"
    using assms(4) by (simp add: list_update_same_conv)
  have "(edges, tris, col, st) \<noteq> (edges, tris, col, st)"
  proof (rule reduce_column.raw_induct[where P = "\<lambda>e t c s r. (e, t, c, s) \<noteq> (edges, tris, col, st)", OF _ y])
    fix rc e t c s r
    assume IH: "\<And>e t c s r. rc e t c s = Some r \<Longrightarrow> (e, t, c, s) \<noteq> (edges, tris, col, st)"
      and body: "(if 0 < length (boundary s ! c)
          then let pivot = boundary s ! c ! 0
               in if pivot_col s ! pivot < 0
                  then Some (s\<lparr>pivot_col := (pivot_col s)[pivot := int c],
                               out_pairs := out_pairs s @ [(e_filt (e ! pivot), t_filt (t ! c))]\<rparr>)
                  else let other = nat (pivot_col s ! pivot);
                           merged = merge_columns (boundary s ! c) (boundary s ! other)
                       in rc e t c (s\<lparr>boundary := (boundary s)[c := merged]\<rparr>)
          else Some s) = Some r"
    show "(e, t, c, s) \<noteq> (edges, tris, col, st)"
    proof
      assume eq: "(e, t, c, s) = (edges, tris, col, st)"
      with body assms have "rc edges tris col st = Some r"
        by (simp add: Let_def same)
      from IH[OF this] show False by simp
    qed
  qed
  then show False by simp
qed

text \<open>
  The triangle \<open>(0, 0, 1)\<close> has the edge \<open>(0, 1)\<close> twice in its boundary column \<open>[2, 2]\<close> and
  owns row 2. The column \<open>[2, 1, 0]\<close> of the triangle \<open>(0, 1, 2)\<close> merged with \<open>[2, 2]\<close> is
  \<open>[2, 1, 0]\<close> again: the pivot does not decrease, and the call does not return.
\<close>

theorem h1_reduction_diverges:
  "merge_columns [2, 1, 0] [2, 2] = [2, 1, 0] \<and>
   topo_gpu_persistence_h1 (Some [0, 1, 0]) (Some [2, 2, 1]) (Some [1, 2, 3])
       (Some [0, 0]) (Some [0, 1]) (Some [1, 2]) (Some [4, 5]) 3 2
       (Some [0, 0]) (Some [0, 0]) (Some 0) = None"
proof -
  let ?edges = "[\<lparr>e_src = 0, e_dst = 2, e_filt = 1, sorted_idx = 0\<rparr>,
                 \<lparr>e_src = 1, e_dst = 2, e_filt = 2, sorted_idx = 1\<rparr>,
                 \<lparr>e_src = 0, e_dst = 1, e_filt = 3, sorted_idx = 2\<rparr>]"
  let ?tris = "[\<lparr>t_filt = 4, v0 = 0, v1 = 0, v2 = 1, original_idx = 0\<rparr>,
                \<lparr>t_filt = 5, v0 = 0, v1 = 1, v2 = 2, original_idx = 1\<rparr>]"
  let ?st0 = "\<lparr>boundary = [[2, 2], [2, 1, 0]], pivot_col = [- 1, - 1, - 1], out_pairs = []\<rparr>"
  let ?st1 = "\<lparr>boundary = [[2, 2], [2, 1, 0]], pivot_col = [- 1, - 1, 0], out_pairs = [(3, 4)]\<rparr>"
  have m: "merge_columns [2, 1, 0] [2, 2] = [2, 1, 0]" by simp
  have c0: "reduce_column ?edges ?tris 0 ?st0 = Some ?st1"
    by (subst reduce_column.simps) simp
  have c1: "reduce_column ?edges ?tris 1 ?st1 = None"
    by (rule reduce_column_stuck) simp_all
  have up: "[0..<nat 2] = [0, 1]" by code_simp
  have loop: "h1_loop ?edges ?tris [0..<nat 2] ?st0 = None"
    by (simp only: up h1_loop.simps c0 c1 option.simps)
  have e: "map (\<lambda>i. (qsort edge_info_compare
                (map (\<lambda>i. \<lparr>e_src = [0, 1, 0] ! i, e_dst = [2, 2, 1] ! i, e_filt = [1, 2, 3] ! i,
                             sorted_idx = 0\<rparr>) [0..<nat 3]) ! i)\<lparr>sorted_idx := i\<rparr>) [0..<nat 3] = ?edges"
    by code_simp
  have t: "qsort tri_compare
             (map (\<lambda>i. \<lparr>t_filt = [4, 5] ! i, v0 = [0, 0] ! i, v1 = [0, 1] ! i, v2 = [1, 2] ! i,
                          original_idx = i\<rparr>) [0..<nat 2]) = ?tris"
    by code_simp
  have b: "map (\<lambda>col. boundary_column ?edges (?tris ! col)) [0..<nat 2] = [[2, 2], [2, 1, 0]]"
    by code_simp
  have "topo_gpu_persistence_h1 (Some [0, 1, 0]) (Some [2, 2, 1]) (Some [1, 2, 3])
       (Some [0, 0]) (Some [0, 1]) (Some [1, 2]) (Some [4, 5]) 3 2
       (Some [0, 0]) (Some [0, 0]) (Some 0) = None"
    unfolding topo_gpu_persistence_h1_def Let_def option.sel e t b
    using loop by (simp add: numeral_3_eq_3)
  with m show ?thesis by simp
qed

text \<open>Columns in strictly descending order, and end points put in ascending order.\<close>

definition strict_desc :: "nat list \<Rightarrow> bool" where
  "strict_desc xs \<longleftrightarrow> sorted_wrt (\<lambda>a b. a > b) xs"

definition norm_pair :: "nat \<Rightarrow> nat \<Rightarrow> nat \<times> nat" where
  "norm_pair u v = (if u > v then (v, u) else (u, v))"

lemma find_edge_from_Some:
  "find_edge_from es i u v = Some j \<Longrightarrow>
     i \<le> j \<and> j < i + length es \<and> norm_pair (e_src (es ! (j - i))) (e_dst (es ! (j - i))) = (u, v)"
proof (induction es arbitrary: i)
  case Nil
  then show ?case by simp
next
  case (Cons e es)
  show ?case
  proof (cases "norm_pair (e_src e) (e_dst e) = (u, v)")
    case True
    with Cons.prems have "j = i" by (auto simp: norm_pair_def Let_def split: if_splits)
    with True show ?thesis by simp
  next
    case False
    with Cons.prems have "find_edge_from es (i + 1) u v = Some j"
      by (auto simp: norm_pair_def Let_def split: if_splits)
    from Cons.IH[OF this] show ?thesis by (auto simp: nth_Cons')
  qed
qed

lemma find_edge_Some:
  "find_edge edges u v = Some j \<Longrightarrow>
     j < length edges \<and> norm_pair (e_src (edges ! j)) (e_dst (edges ! j)) = norm_pair u v"
  unfolding find_edge_def
  using find_edge_from_Some[of edges 0 "fst (norm_pair u v)" "snd (norm_pair u v)" j]
  by (auto simp: norm_pair_def split: if_splits)

lemma merge_columns_set: "set (merge_columns xs ys) \<subseteq> set xs \<union> set ys"
  by (induction xs ys rule: merge_columns.induct) auto

lemma merge_columns_strict:
  assumes "strict_desc xs" "strict_desc ys"
  shows "strict_desc (merge_columns xs ys)"
  using assms
proof (induction xs ys rule: merge_columns.induct)
  case (1 a as b bs)
  have sub1: "set (merge_columns as (b # bs)) \<subseteq> set as \<union> set (b # bs)"
    and sub2: "set (merge_columns (a # as) bs) \<subseteq> set (a # as) \<union> set bs"
    by (rule merge_columns_set)+
  have lt1: "x < b" if "a < b" "x \<in> set (merge_columns (a # as) bs)" for x
  proof -
    from that(2) sub2 have "x = a \<or> x \<in> set as \<or> x \<in> set bs" by auto
    with that(1) 1(4,5) show ?thesis by (auto simp: strict_desc_def)
  qed
  have lt2: "x < a" if "b < a" "x \<in> set (merge_columns as (b # bs))" for x
  proof -
    from that(2) sub1 have "x = b \<or> x \<in> set as \<or> x \<in> set bs" by auto
    with that(1) 1(4,5) show ?thesis by (auto simp: strict_desc_def)
  qed
  from 1 lt1 lt2 show ?case
    by (auto simp: strict_desc_def)
qed (auto simp: strict_desc_def)

lemma merge_columns_same_head:
  assumes "strict_desc (p # xs)" "strict_desc (p # ys)"
  shows "\<forall>x \<in> set (merge_columns (p # xs) (p # ys)). x < p"
proof -
  have "set (merge_columns xs ys) \<subseteq> set xs \<union> set ys" by (rule merge_columns_set)
  with assms show ?thesis by (auto simp: strict_desc_def)
qed

lemma sort_desc_outer_len3:
  assumes "length col \<le> 3"
  shows "sorted_wrt (\<lambda>a b. a \<ge> b) (sort_desc_outer col 0) \<and> mset (sort_desc_outer col 0) = mset col"
proof -
  consider "col = []" | a where "col = [a]" | a b where "col = [a, b]" | a b c where "col = [a, b, c]"
    using assms
    by (cases col; cases "tl col"; cases "tl (tl col)"; cases "tl (tl (tl col))") auto
  then show ?thesis
  proof cases
    case 1
    then show ?thesis by (simp add: sort_desc_outer.simps)
  next
    case 2
    then show ?thesis by (simp add: sort_desc_outer.simps sort_desc_inner.simps)
  next
    case 3
    then show ?thesis
      by (cases "a < b") (simp_all add: sort_desc_outer.simps sort_desc_inner.simps)
  next
    case 4
    then show ?thesis
      by (cases "a < b"; cases "a < c"; cases "b < c")
         (simp_all add: sort_desc_outer.simps sort_desc_inner.simps numeral_3_eq_3 numeral_2_eq_2)
  qed
qed

lemma sorted_ge_distinct_strict:
  "sorted_wrt (\<lambda>a b. a \<ge> b) xs \<Longrightarrow> distinct xs \<Longrightarrow> strict_desc (xs :: nat list)"
  unfolding strict_desc_def by (induction xs) (auto simp: le_less)

definition unsorted_column :: "EdgeInfo list \<Rightarrow> TriSortKey \<Rightarrow> nat list" where
  "unsorted_column edges tri =
     (case find_edge edges (v0 tri) (v1 tri) of Some j \<Rightarrow> [j] | None \<Rightarrow> []) @
     (case find_edge edges (v0 tri) (v2 tri) of Some j \<Rightarrow> [j] | None \<Rightarrow> []) @
     (case find_edge edges (v1 tri) (v2 tri) of Some j \<Rightarrow> [j] | None \<Rightarrow> [])"

lemma boundary_column_unsorted:
  "boundary_column edges tri = sort_desc_outer (unsorted_column edges tri) 0"
  by (simp add: boundary_column_def unsorted_column_def Let_def split: option.splits)

lemma unsorted_column_length: "length (unsorted_column edges tri) \<le> 3"
  by (simp add: unsorted_column_def split: option.splits)

lemma unsorted_column_mem:
  assumes "r \<in> set (unsorted_column edges tri)"
  shows "r < length edges \<and>
         norm_pair (e_src (edges ! r)) (e_dst (edges ! r)) \<in>
           {norm_pair (v0 tri) (v1 tri), norm_pair (v0 tri) (v2 tri), norm_pair (v1 tri) (v2 tri)}"
  using assms find_edge_Some[of edges _ _ r]
  by (auto simp: unsorted_column_def split: option.splits)

lemma unsorted_column_distinct:
  assumes "v0 tri \<noteq> v1 tri" "v0 tri \<noteq> v2 tri" "v1 tri \<noteq> v2 tri"
  shows "distinct (unsorted_column edges tri)"
proof -
  have ne: "norm_pair (v0 tri) (v1 tri) \<noteq> norm_pair (v0 tri) (v2 tri)"
      "norm_pair (v0 tri) (v1 tri) \<noteq> norm_pair (v1 tri) (v2 tri)"
      "norm_pair (v0 tri) (v2 tri) \<noteq> norm_pair (v1 tri) (v2 tri)"
    using assms by (auto simp: norm_pair_def split: if_splits)
  have diff: "j \<noteq> k" if "find_edge edges a b = Some j" "find_edge edges c d = Some k"
      "norm_pair a b \<noteq> norm_pair c d" for a b c d j k
    using find_edge_Some[OF that(1)] find_edge_Some[OF that(2)] that(3) by auto
  show ?thesis
    using ne by (auto simp: unsorted_column_def split: option.splits dest: diff)
qed

lemma boundary_column_mem:
  assumes "r \<in> set (boundary_column edges tri)"
  shows "r < length edges \<and>
         norm_pair (e_src (edges ! r)) (e_dst (edges ! r)) \<in>
           {norm_pair (v0 tri) (v1 tri), norm_pair (v0 tri) (v2 tri), norm_pair (v1 tri) (v2 tri)}"
proof -
  from sort_desc_outer_len3[OF unsorted_column_length, of edges tri]
  have "mset (boundary_column edges tri) = mset (unsorted_column edges tri)"
    by (simp add: boundary_column_unsorted)
  then have "set (boundary_column edges tri) = set (unsorted_column edges tri)"
    by (rule mset_eq_setD)
  with assms unsorted_column_mem show ?thesis by blast
qed

lemma boundary_column_strict:
  assumes "v0 tri \<noteq> v1 tri" "v0 tri \<noteq> v2 tri" "v1 tri \<noteq> v2 tri"
  shows "strict_desc (boundary_column edges tri)"
proof -
  from sort_desc_outer_len3[OF unsorted_column_length, of edges tri]
  have s: "sorted_wrt (\<lambda>a b. a \<ge> b) (boundary_column edges tri)"
    and m: "mset (boundary_column edges tri) = mset (unsorted_column edges tri)"
    by (simp_all add: boundary_column_unsorted)
  from m unsorted_column_distinct[OF assms, of edges]
  have "distinct (boundary_column edges tri)"
    by (metis mset_eq_imp_distinct_iff)
  with s show ?thesis by (rule sorted_ge_distinct_strict)
qed

definition h1_inv :: "nat \<Rightarrow> nat \<Rightarrow> nat \<Rightarrow> h1_state \<Rightarrow> bool" where
  "h1_inv m t col st \<longleftrightarrow>
     length (boundary st) = t \<and> length (pivot_col st) = m \<and>
     (\<forall>c<t. strict_desc (boundary st ! c) \<and> (\<forall>r\<in>set (boundary st ! c). r < m)) \<and>
     (\<forall>p<m. pivot_col st ! p \<ge> 0 \<longrightarrow>
        nat (pivot_col st ! p) < col \<and> boundary st ! nat (pivot_col st ! p) \<noteq> [] \<and>
        hd (boundary st ! nat (pivot_col st ! p)) = p)"

lemma h1_inv_mono: "h1_inv m t col st \<Longrightarrow> h1_inv m t (Suc col) st"
  by (auto simp: h1_inv_def)

lemma reduce_column_terminates:
  assumes "h1_inv m t col st" "col < t"
  shows "\<exists>st'. reduce_column edges tris col st = Some st' \<and> h1_inv m t (Suc col) st'"
  using assms(1)
proof (induction "case boundary st ! col of [] \<Rightarrow> 0 | p # _ \<Rightarrow> Suc p" arbitrary: st rule: less_induct)
  case less
  note inv = less.prems
  from inv assms(2) have col: "strict_desc (boundary st ! col)" "\<forall>r\<in>set (boundary st ! col). r < m"
    and lens: "length (boundary st) = t" "length (pivot_col st) = m"
    by (auto simp: h1_inv_def)
  show ?case
  proof (cases "boundary st ! col")
    case Nil
    then have "reduce_column edges tris col st = Some st"
      by (subst reduce_column.simps) simp
    with inv show ?thesis by (auto intro: h1_inv_mono)
  next
    case (Cons p rest)
    then have p: "p < m" and pv: "boundary st ! col ! 0 = p" using col by auto
    show ?thesis
    proof (cases "pivot_col st ! p < 0")
      case True
      let ?st' = "st\<lparr>pivot_col := (pivot_col st)[p := int col],
                     out_pairs := out_pairs st @ [(e_filt (edges ! p), t_filt (tris ! col))]\<rparr>"
      have r: "reduce_column edges tris col st = Some ?st'"
        using Cons True pv by (subst reduce_column.simps) (simp add: Let_def)
      have "h1_inv m t (Suc col) ?st'"
        unfolding h1_inv_def
      proof (intro conjI allI impI)
        fix q assume q: "q < m" and own: "0 \<le> pivot_col ?st' ! q"
        show "nat (pivot_col ?st' ! q) < Suc col"
          using inv q own p lens by (cases "q = p") (auto simp: h1_inv_def)
        show "boundary ?st' ! nat (pivot_col ?st' ! q) \<noteq> []"
          using inv q own p lens Cons by (cases "q = p") (auto simp: h1_inv_def)
        show "hd (boundary ?st' ! nat (pivot_col ?st' ! q)) = q"
          using inv q own p lens Cons by (cases "q = p") (auto simp: h1_inv_def)
      qed (use inv in \<open>auto simp: h1_inv_def\<close>)
      with r show ?thesis by blast
    next
      case False
      define other where "other = nat (pivot_col st ! p)"
      from inv p False have o: "other < col" "boundary st ! other \<noteq> []" "hd (boundary st ! other) = p"
        by (auto simp: h1_inv_def other_def)
      then obtain ys where oc: "boundary st ! other = p # ys" by (cases "boundary st ! other") auto
      have ot: "other < t" using o(1) assms(2) by simp
      from inv have "\<forall>c<t. strict_desc (boundary st ! c) \<and> (\<forall>r\<in>set (boundary st ! c). r < m)"
        by (simp add: h1_inv_def)
      with ot have os: "strict_desc (boundary st ! other)" "\<forall>r\<in>set (boundary st ! other). r < m"
        by blast+
      define merged where "merged = merge_columns (boundary st ! col) (boundary st ! other)"
      let ?st2 = "st\<lparr>boundary := (boundary st)[col := merged]\<rparr>"
      have r: "reduce_column edges tris col st = reduce_column edges tris col ?st2"
        using Cons False pv by (subst reduce_column.simps) (simp add: Let_def merged_def other_def)
      have ms: "strict_desc merged" unfolding merged_def using col(1) os(1) by (rule merge_columns_strict)
      have mb: "\<forall>r\<in>set merged. r < m"
        using merge_columns_set[of "boundary st ! col" "boundary st ! other"] col(2) os(2)
        by (auto simp: merged_def)
      have ml: "\<forall>x\<in>set merged. x < p"
        unfolding merged_def Cons oc
        using col(1) os(1) unfolding Cons oc by (rule merge_columns_same_head)
      have inv2: "h1_inv m t col ?st2"
        unfolding h1_inv_def
      proof (intro conjI allI impI)
        fix c assume c: "c < t"
        show "strict_desc (boundary ?st2 ! c)"
          using inv c ms lens by (cases "c = col") (auto simp: h1_inv_def)
        show "\<forall>r\<in>set (boundary ?st2 ! c). r < m"
          using inv c mb lens by (cases "c = col") (auto simp: h1_inv_def)
      next
        fix q assume q: "q < m" and own: "0 \<le> pivot_col ?st2 ! q"
        with inv have a: "nat (pivot_col st ! q) < col" "boundary st ! nat (pivot_col st ! q) \<noteq> []"
            "hd (boundary st ! nat (pivot_col st ! q)) = q"
          by (auto simp: h1_inv_def)
        show "nat (pivot_col ?st2 ! q) < col" using a by simp
        show "boundary ?st2 ! nat (pivot_col ?st2 ! q) \<noteq> []" using a by simp
        show "hd (boundary ?st2 ! nat (pivot_col ?st2 ! q)) = q" using a by simp
      qed (use lens in auto)
      have "(case boundary ?st2 ! col of [] \<Rightarrow> 0 | p # _ \<Rightarrow> Suc p) <
            (case boundary st ! col of [] \<Rightarrow> 0 | p # _ \<Rightarrow> Suc p)"
        using ml lens assms(2) Cons by (cases merged) auto
      from less.hyps[OF this inv2] r show ?thesis by simp
    qed
  qed
qed

lemma h1_loop_terminates:
  assumes "h1_inv m t c st" "c \<le> t"
  shows "\<exists>st'. h1_loop edges tris [c..<t] st = Some st'"
  using assms
proof (induction "t - c" arbitrary: c st)
  case 0
  then show ?case by simp
next
  case (Suc k)
  then have c: "c < t" by simp
  from reduce_column_terminates[OF Suc.prems(1) c] obtain st1 where
    r: "reduce_column edges tris c st = Some st1" and inv1: "h1_inv m t (Suc c) st1" by blast
  have "k = t - Suc c" using Suc.hyps(2) by simp
  from Suc.hyps(1)[OF this inv1] c obtain st' where "h1_loop edges tris [Suc c..<t] st1 = Some st'"
    by auto
  with r c show ?case by (simp add: upt_rec[of c t])
qed

text \<open>Every triangle has three pairwise distinct vertices.\<close>

definition nondegenerate :: "nat list \<Rightarrow> nat list \<Rightarrow> nat list \<Rightarrow> nat \<Rightarrow> bool" where
  "nondegenerate tv0 tv1 tv2 t =
     list_all (\<lambda>i. tv0 ! i \<noteq> tv1 ! i \<and> tv0 ! i \<noteq> tv2 ! i \<and> tv1 ! i \<noteq> tv2 ! i) [0..<t]"

lemma h1_initial_inv:
  assumes "\<And>tri. tri \<in> set tris \<Longrightarrow> v0 tri \<noteq> v1 tri \<and> v0 tri \<noteq> v2 tri \<and> v1 tri \<noteq> v2 tri"
    and "length tris = t" and "length edges = m"
  shows "h1_inv m t 0 \<lparr>boundary = map (\<lambda>col. boundary_column edges (tris ! col)) [0..<t],
                           pivot_col = replicate m (- 1), out_pairs = []\<rparr>"
  unfolding h1_inv_def
proof (intro conjI allI impI)
  fix c assume c: "c < t"
  then have "tris ! c \<in> set tris" using assms(2) by simp
  from assms(1)[OF this] have "strict_desc (boundary_column edges (tris ! c))"
    by (intro boundary_column_strict) auto
  then show "strict_desc (boundary \<lparr>boundary = map (\<lambda>col. boundary_column edges (tris ! col)) [0..<t],
                           pivot_col = replicate m (- 1), out_pairs = []\<rparr> ! c)"
    using c by simp
  show "\<forall>r\<in>set (boundary \<lparr>boundary = map (\<lambda>col. boundary_column edges (tris ! col)) [0..<t],
                           pivot_col = replicate m (- 1), out_pairs = []\<rparr> ! c). r < m"
    using c boundary_column_mem[of _ edges "tris ! c"] assms(3) by auto
qed auto

text \<open>
  Claim C9, as the code has it. When every triangle has three pairwise distinct vertices
  (and \<open>m\<close>, \<open>t\<close> are not negative), the boundary columns are strictly descending, a merge of
  the current column with the owner of its pivot leaves only rows below the pivot, and the
  reduction returns.
\<close>

theorem h1_reduction_terminates:
  assumes "0 \<le> m" and "0 \<le> t" and "nondegenerate tv0 tv1 tv2 (nat t)"
  shows "(\<exists>r. topo_gpu_persistence_h1 edge_src edge_dst edge_filt (Some tv0) (Some tv1) (Some tv2)
                tri_filt m t out_births out_deaths out_count = Some r) \<and>
         (\<forall>p xs ys. strict_desc (p # xs) \<and> strict_desc (p # ys) \<longrightarrow>
            (\<forall>x\<in>set (merge_columns (p # xs) (p # ys)). x < p))"
proof
  let ?edges0 = "qsort edge_info_compare
                   (map (\<lambda>i. \<lparr>e_src = the edge_src ! i, e_dst = the edge_dst ! i,
                                 e_filt = the edge_filt ! i, sorted_idx = 0\<rparr>) [0..<nat m])"
  let ?edges = "map (\<lambda>i. (?edges0 ! i)\<lparr>sorted_idx := i\<rparr>) [0..<nat m]"
  let ?tris0 = "map (\<lambda>i. \<lparr>t_filt = the tri_filt ! i, v0 = tv0 ! i, v1 = tv1 ! i,
                              v2 = tv2 ! i, original_idx = i\<rparr>) [0..<nat t]"
  let ?tris = "qsort tri_compare ?tris0"
  let ?st0 = "\<lparr>boundary = map (\<lambda>col. boundary_column ?edges (?tris ! col)) [0..<nat t],
               pivot_col = replicate (nat m) (- 1), out_pairs = []\<rparr>"
  have nd: "v0 tri \<noteq> v1 tri \<and> v0 tri \<noteq> v2 tri \<and> v1 tri \<noteq> v2 tri" if "tri \<in> set ?tris" for tri
  proof -
    from that have "tri \<in> set ?tris0" by simp
    then obtain i where "i < nat t" "tri = \<lparr>t_filt = the tri_filt ! i, v0 = tv0 ! i, v1 = tv1 ! i,
                              v2 = tv2 ! i, original_idx = i\<rparr>" by auto
    with assms(3) show ?thesis by (auto simp: nondegenerate_def list_all_iff)
  qed
  have "h1_inv (nat m) (nat t) 0 ?st0"
    by (rule h1_initial_inv[OF nd]) simp_all
  from h1_loop_terminates[OF this, of ?edges ?tris] obtain st' where
    "h1_loop ?edges ?tris [0..<nat t] ?st0 = Some st'" by auto
  then show "\<exists>r. topo_gpu_persistence_h1 edge_src edge_dst edge_filt (Some tv0) (Some tv1) (Some tv2)
                tri_filt m t out_births out_deaths out_count = Some r"
    using assms(1,2) by (simp add: topo_gpu_persistence_h1_def Let_def)
next
  show "\<forall>p xs ys. strict_desc (p # xs) \<and> strict_desc (p # ys) \<longrightarrow>
            (\<forall>x\<in>set (merge_columns (p # xs) (p # ys)). x < p)"
    using merge_columns_same_head by blast
qed

theorem h1_reduction_terminates_witness:
  "(0::int) \<le> 6 \<and> (0::int) \<le> 4 \<and>
   nondegenerate [0, 0, 0, 1] [1, 1, 2, 2] [2, 3, 3, 3] (nat 4) \<and>
   topo_gpu_persistence_h1 (Some [0, 0, 1, 0, 1, 2]) (Some [1, 2, 2, 3, 3, 3]) (Some [1, 2, 3, 4, 5, 6])
       (Some [0, 0, 0, 1]) (Some [1, 1, 2, 2]) (Some [2, 3, 3, 3]) (Some [7, 8, 9, 10]) 6 4
       (Some [0, 0, 0, 0]) (Some [0, 0, 0, 0]) (Some 5) =
     Some (TOPO_SUCCESS, Some [3, 5, 6, 0], Some [7, 8, 9, 0], Some 3) \<and>
   strict_desc [5, 4, 2] \<and> strict_desc [5, 3, 2] \<and> merge_columns [5, 4, 2] [5, 3, 2] = [4, 3]"
proof -
  have a: "(0::int) \<le> 6" "(0::int) \<le> 4" by simp_all
  have n: "nondegenerate [0, 0, 0, 1] [1, 1, 2, 2] [2, 3, 3, 3] (nat 4)"
    by code_simp
  have v: "topo_gpu_persistence_h1 (Some [0, 0, 1, 0, 1, 2]) (Some [1, 2, 2, 3, 3, 3]) (Some [1, 2, 3, 4, 5, 6])
       (Some [0, 0, 0, 1]) (Some [1, 1, 2, 2]) (Some [2, 3, 3, 3]) (Some [7, 8, 9, 10]) 6 4
       (Some [0, 0, 0, 0]) (Some [0, 0, 0, 0]) (Some 5) =
     Some (TOPO_SUCCESS, Some [3, 5, 6, 0], Some [7, 8, 9, 0], Some 3)"
    by code_simp
  have s: "strict_desc [5, 4, 2]" "strict_desc [5, 3, 2]" "merge_columns [5, 4, 2] [5, 3, 2] = [4, 3]"
    by (simp_all add: strict_desc_def)
  from h1_reduction_terminates[OF a n, of "Some [0, 0, 1, 0, 1, 2]" "Some [1, 2, 2, 3, 3, 3]"
      "Some [1, 2, 3, 4, 5, 6]" "Some [7, 8, 9, 10]" "Some [0, 0, 0, 0]" "Some [0, 0, 0, 0]" "Some 5"]
  have "\<exists>r. topo_gpu_persistence_h1 (Some [0, 0, 1, 0, 1, 2]) (Some [1, 2, 2, 3, 3, 3]) (Some [1, 2, 3, 4, 5, 6])
       (Some [0, 0, 0, 1]) (Some [1, 1, 2, 2]) (Some [2, 3, 3, 3]) (Some [7, 8, 9, 10]) 6 4
       (Some [0, 0, 0, 0]) (Some [0, 0, 0, 0]) (Some 5) = Some r" by blast
  with a n v s show ?thesis by blast
qed


section \<open>Order of birth and death in the H1 pairs\<close>

text \<open>
  The filtration of every triangle is at least that of each of its edges in the edge list.
\<close>

definition face_filtration_ok :: "nat list \<Rightarrow> nat list \<Rightarrow> real list \<Rightarrow> nat list \<Rightarrow> nat list \<Rightarrow>
    nat list \<Rightarrow> real list \<Rightarrow> nat \<Rightarrow> nat \<Rightarrow> bool" where
  "face_filtration_ok es ed ef tv0 tv1 tv2 tf m t =
     list_all (\<lambda>i. list_all (\<lambda>j.
         norm_pair (es ! j) (ed ! j) \<in>
           {norm_pair (tv0 ! i) (tv1 ! i), norm_pair (tv0 ! i) (tv2 ! i), norm_pair (tv1 ! i) (tv2 ! i)}
         \<longrightarrow> ef ! j \<le> tf ! i) [0..<m]) [0..<t]"

definition h1_filt_inv :: "EdgeInfo list \<Rightarrow> TriSortKey list \<Rightarrow> nat \<Rightarrow> h1_state \<Rightarrow> bool" where
  "h1_filt_inv edges tris col st \<longleftrightarrow>
     length (boundary st) = length tris \<and> length (pivot_col st) = length edges \<and>
     (\<forall>c<length tris. \<forall>r\<in>set (boundary st ! c).
        r < length edges \<and> e_filt (edges ! r) \<le> t_filt (tris ! c)) \<and>
     (\<forall>p<length edges. pivot_col st ! p \<ge> 0 \<longrightarrow> nat (pivot_col st ! p) \<le> col) \<and>
     (\<forall>bd\<in>set (out_pairs st). fst bd \<le> snd bd)"

lemma reduce_column_filt_inv:
  assumes "reduce_column edges tris col st = Some st'"
    and "h1_filt_inv edges tris col st" and "col < length tris"
    and "sorted (map t_filt tris)"
  shows "h1_filt_inv edges tris col st'"
proof -
  have "col < length tris \<and> h1_filt_inv edges tris col st \<longrightarrow> h1_filt_inv edges tris col st'"
  proof (rule reduce_column.raw_induct[where
        P = "\<lambda>e t c s r. e = edges \<and> t = tris \<longrightarrow> c < length tris \<and> h1_filt_inv edges tris c s \<longrightarrow> h1_filt_inv edges tris c r",
        OF _ assms(1), THEN mp])
    fix rc e t c s r
    assume IH: "\<And>e t c s r. rc e t c s = Some r \<Longrightarrow>
        e = edges \<and> t = tris \<longrightarrow> c < length tris \<and> h1_filt_inv edges tris c s \<longrightarrow> h1_filt_inv edges tris c r"
      and body: "(if 0 < length (boundary s ! c)
          then let pivot = boundary s ! c ! 0
               in if pivot_col s ! pivot < 0
                  then Some (s\<lparr>pivot_col := (pivot_col s)[pivot := int c],
                               out_pairs := out_pairs s @ [(e_filt (e ! pivot), t_filt (t ! c))]\<rparr>)
                  else let other = nat (pivot_col s ! pivot);
                           merged = merge_columns (boundary s ! c) (boundary s ! other)
                       in rc e t c (s\<lparr>boundary := (boundary s)[c := merged]\<rparr>)
          else Some s) = Some r"
    show "e = edges \<and> t = tris \<longrightarrow> c < length tris \<and> h1_filt_inv edges tris c s \<longrightarrow> h1_filt_inv edges tris c r"
    proof (intro impI)
      assume et: "e = edges \<and> t = tris" and ci: "c < length tris \<and> h1_filt_inv edges tris c s"
      then have c: "c < length tris" and inv: "h1_filt_inv edges tris c s" by auto
      from inv have lens: "length (boundary s) = length tris" "length (pivot_col s) = length edges"
        and rows: "\<forall>c<length tris. \<forall>r\<in>set (boundary s ! c).
                      r < length edges \<and> e_filt (edges ! r) \<le> t_filt (tris ! c)"
        and own: "\<forall>p<length edges. pivot_col s ! p \<ge> 0 \<longrightarrow> nat (pivot_col s ! p) \<le> c"
        and outs: "\<forall>bd\<in>set (out_pairs s). fst bd \<le> snd bd"
        by (auto simp: h1_filt_inv_def)
      show "h1_filt_inv edges tris c r"
      proof (cases "boundary s ! c")
        case Nil
        with body have "r = s" by simp
        with inv show ?thesis by simp
      next
        case (Cons p rest)
        then have pm: "p \<in> set (boundary s ! c)" and pv: "boundary s ! c ! 0 = p" by auto
        from rows c pm have p: "p < length edges" "e_filt (edges ! p) \<le> t_filt (tris ! c)" by auto
        show ?thesis
        proof (cases "pivot_col s ! p < 0")
          case True
          with body Cons pv et have r: "r = s\<lparr>pivot_col := (pivot_col s)[p := int c],
                               out_pairs := out_pairs s @ [(e_filt (edges ! p), t_filt (tris ! c))]\<rparr>"
            by (simp add: Let_def)
          show ?thesis
            unfolding h1_filt_inv_def r
            using lens rows own outs p by (auto simp: nth_list_update)
        next
          case False
          define other where "other = nat (pivot_col s ! p)"
          define merged where "merged = merge_columns (boundary s ! c) (boundary s ! other)"
          let ?s2 = "s\<lparr>boundary := (boundary s)[c := merged]\<rparr>"
          from body Cons pv et False have rc: "rc edges tris c ?s2 = Some r"
            by (simp add: Let_def other_def merged_def)
          from own p(1) False have oc: "other \<le> c" by (auto simp: other_def)
          have le: "t_filt (tris ! other) \<le> t_filt (tris ! c)"
            using assms(4) oc c by (simp add: sorted_iff_nth_mono)
          have mrows: "\<forall>r\<in>set merged. r < length edges \<and> e_filt (edges ! r) \<le> t_filt (tris ! c)"
          proof
            fix x assume "x \<in> set merged"
            then have "x \<in> set (boundary s ! c) \<or> x \<in> set (boundary s ! other)"
              using merge_columns_set[of "boundary s ! c" "boundary s ! other"] by (auto simp: merged_def)
            then show "x < length edges \<and> e_filt (edges ! x) \<le> t_filt (tris ! c)"
            proof
              assume "x \<in> set (boundary s ! c)"
              with rows c show ?thesis by blast
            next
              assume x: "x \<in> set (boundary s ! other)"
              have "other < length tris" using oc c by simp
              with rows x have "x < length edges \<and> e_filt (edges ! x) \<le> t_filt (tris ! other)" by blast
              with le show ?thesis by auto
            qed
          qed
          have inv2: "h1_filt_inv edges tris c ?s2"
            unfolding h1_filt_inv_def
          proof (intro conjI allI impI ballI)
            fix c' x assume c': "c' < length tris" and x: "x \<in> set (boundary ?s2 ! c')"
            have "x < length edges \<and> e_filt (edges ! x) \<le> t_filt (tris ! c')"
            proof (cases "c' = c")
              case True
              with x c lens have "x \<in> set merged" by simp
              with mrows True show ?thesis by blast
            next
              case False
              with x have "x \<in> set (boundary s ! c')" by simp
              with rows c' show ?thesis by blast
            qed
            then show "x < length edges" "e_filt (edges ! x) \<le> t_filt (tris ! c')" by auto
          qed (use lens own outs in auto)
          from IH[OF rc] c inv2 show ?thesis by blast
        qed
      qed
    qed
  qed (simp)
  with assms show ?thesis by blast
qed

lemma h1_filt_inv_mono: "h1_filt_inv edges tris col st \<Longrightarrow> col \<le> col' \<Longrightarrow> h1_filt_inv edges tris col' st"
  by (auto simp: h1_filt_inv_def)

lemma h1_loop_filt_inv:
  assumes "h1_loop edges tris [c..<length tris] st = Some st'"
    and "h1_filt_inv edges tris c st" and "sorted (map t_filt tris)"
  shows "\<forall>bd\<in>set (out_pairs st'). fst bd \<le> snd bd"
  using assms(1,2)
proof (induction "length tris - c" arbitrary: c st)
  case 0
  then show ?case by (simp add: h1_filt_inv_def)
next
  case (Suc k)
  then have c: "c < length tris" by simp
  from Suc.prems(1) c obtain st1 where
    r: "reduce_column edges tris c st = Some st1"
    and l: "h1_loop edges tris [Suc c..<length tris] st1 = Some st'"
    by (auto simp: upt_rec[of c "length tris"] split: option.splits)
  from reduce_column_filt_inv[OF r Suc.prems(2) c assms(3)]
  have "h1_filt_inv edges tris (Suc c) st1" by (rule h1_filt_inv_mono) simp
  moreover have "k = length tris - Suc c" using Suc.hyps(2) by simp
  ultimately show ?case using Suc.hyps(1) l by blast
qed

lemma sorted_edges_origin:
  assumes "r < m"
  shows "\<exists>j<m. e_src (map (\<lambda>i. (qsort edge_info_compare
                 (map (\<lambda>i. \<lparr>e_src = es ! i, e_dst = ed ! i, e_filt = ef ! i, sorted_idx = 0\<rparr>) [0..<m]) ! i)
                   \<lparr>sorted_idx := i\<rparr>) [0..<m] ! r) = es ! j \<and>
              e_dst (map (\<lambda>i. (qsort edge_info_compare
                 (map (\<lambda>i. \<lparr>e_src = es ! i, e_dst = ed ! i, e_filt = ef ! i, sorted_idx = 0\<rparr>) [0..<m]) ! i)
                   \<lparr>sorted_idx := i\<rparr>) [0..<m] ! r) = ed ! j \<and>
              e_filt (map (\<lambda>i. (qsort edge_info_compare
                 (map (\<lambda>i. \<lparr>e_src = es ! i, e_dst = ed ! i, e_filt = ef ! i, sorted_idx = 0\<rparr>) [0..<m]) ! i)
                   \<lparr>sorted_idx := i\<rparr>) [0..<m] ! r) = ef ! j"
proof -
  let ?in = "map (\<lambda>i. \<lparr>e_src = es ! i, e_dst = ed ! i, e_filt = ef ! i, sorted_idx = 0\<rparr>) [0..<m]"
  have "qsort edge_info_compare ?in ! r \<in> set (qsort edge_info_compare ?in)"
    using assms by (intro nth_mem) simp
  then have "qsort edge_info_compare ?in ! r \<in> set ?in" by simp
  then obtain j where "j < m" "qsort edge_info_compare ?in ! r =
      \<lparr>e_src = es ! j, e_dst = ed ! j, e_filt = ef ! j, sorted_idx = 0\<rparr>" by auto
  with assms show ?thesis by auto
qed

lemma sorted_tris_origin:
  assumes "c < t"
  shows "\<exists>i<t. qsort tri_compare
                 (map (\<lambda>i. \<lparr>t_filt = tf ! i, v0 = tv0 ! i, v1 = tv1 ! i, v2 = tv2 ! i, original_idx = i\<rparr>)
                      [0..<t]) ! c =
               \<lparr>t_filt = tf ! i, v0 = tv0 ! i, v1 = tv1 ! i, v2 = tv2 ! i, original_idx = i\<rparr>"
proof -
  let ?in = "map (\<lambda>i. \<lparr>t_filt = tf ! i, v0 = tv0 ! i, v1 = tv1 ! i, v2 = tv2 ! i, original_idx = i\<rparr>) [0..<t]"
  have "qsort tri_compare ?in ! c \<in> set (qsort tri_compare ?in)"
    using assms by (intro nth_mem) simp
  then have "qsort tri_compare ?in ! c \<in> set ?in" by simp
  then show ?thesis by auto
qed

lemma sorted_qsort_tri: "sorted (map t_filt (qsort tri_compare ts))"
proof -
  have "qsort tri_compare ts = sort_key t_filt ts"
    by (rule qsort_is_sort_key) (auto simp: tri_compare_def)
  then show ?thesis by simp
qed

text \<open>
  What the reduction does guarantee: where the filtration of every triangle is at least that
  of each of its edges, every pair written by a call that returns satisfies
  \<open>death \<ge> birth\<close>.
\<close>

lemma h1_pairs_death_ge_birth:
  assumes "topo_gpu_persistence_h1 (Some es) (Some ed) (Some ef) (Some tv0) (Some tv1) (Some tv2) (Some tf)
             m t (Some ob) (Some od) (Some oc) = Some (TOPO_SUCCESS, Some births, Some deaths, Some npairs)"
    and "face_filtration_ok es ed ef tv0 tv1 tv2 tf (nat m) (nat t)"
    and "k < nat npairs"
  shows "births ! k \<le> deaths ! k"
proof -
  let ?edges0 = "qsort edge_info_compare
                   (map (\<lambda>i. \<lparr>e_src = es ! i, e_dst = ed ! i, e_filt = ef ! i, sorted_idx = 0\<rparr>) [0..<nat m])"
  let ?edges = "map (\<lambda>i. (?edges0 ! i)\<lparr>sorted_idx := i\<rparr>) [0..<nat m]"
  let ?tris = "qsort tri_compare
                 (map (\<lambda>i. \<lparr>t_filt = tf ! i, v0 = tv0 ! i, v1 = tv1 ! i, v2 = tv2 ! i, original_idx = i\<rparr>)
                      [0..<nat t])"
  let ?st0 = "\<lparr>boundary = map (\<lambda>col. boundary_column ?edges (?tris ! col)) [0..<nat t],
               pivot_col = replicate (nat m) (- 1), out_pairs = []\<rparr>"
  show ?thesis
  proof (cases "t = 0 \<or> m = 0")
    case True
    with assms(1,3) show ?thesis by (auto simp: topo_gpu_persistence_h1_def)
  next
    case False
    with assms(1) obtain st' where
      loop: "h1_loop ?edges ?tris [0..<nat t] ?st0 = Some st'"
      and b: "births = memcpy_to_host ob (map fst (out_pairs st')) (length (out_pairs st'))"
      and d: "deaths = memcpy_to_host od (map snd (out_pairs st')) (length (out_pairs st'))"
      and cnt: "npairs = int (length (out_pairs st'))"
      by (auto simp: topo_gpu_persistence_h1_def Let_def split: if_splits option.splits)
    have lt: "length ?tris = nat t" and le: "length ?edges = nat m" by simp_all
    have inv0: "h1_filt_inv ?edges ?tris 0 ?st0"
      unfolding h1_filt_inv_def
    proof (intro conjI allI impI ballI)
      fix c r assume c: "c < length ?tris" and "r \<in> set (boundary ?st0 ! c)"
      then have r: "r \<in> set (boundary_column ?edges (?tris ! c))" by simp
      note bm = boundary_column_mem[OF r]
      from bm have rm: "r < nat m" by simp
      from bm have np: "norm_pair (e_src (?edges ! r)) (e_dst (?edges ! r)) \<in>
           {norm_pair (v0 (?tris ! c)) (v1 (?tris ! c)), norm_pair (v0 (?tris ! c)) (v2 (?tris ! c)),
            norm_pair (v1 (?tris ! c)) (v2 (?tris ! c))}"
        by (rule conjunct2)
      show "r < length ?edges" using rm by simp
      from sorted_edges_origin[OF rm, of es ed ef] obtain j where j: "j < nat m"
        "e_src (?edges ! r) = es ! j" "e_dst (?edges ! r) = ed ! j" "e_filt (?edges ! r) = ef ! j"
        by blast
      from c have "c < nat t" by simp
      from sorted_tris_origin[OF this, of tf tv0 tv1 tv2] obtain i where i: "i < nat t"
        "?tris ! c = \<lparr>t_filt = tf ! i, v0 = tv0 ! i, v1 = tv1 ! i, v2 = tv2 ! i, original_idx = i\<rparr>"
        by blast
      from np have "norm_pair (es ! j) (ed ! j) \<in>
           {norm_pair (tv0 ! i) (tv1 ! i), norm_pair (tv0 ! i) (tv2 ! i), norm_pair (tv1 ! i) (tv2 ! i)}"
        unfolding j(2,3) i(2) by simp
      with assms(2) i(1) j(1) have "ef ! j \<le> tf ! i"
        by (auto simp: face_filtration_ok_def list_all_iff)
      then show "e_filt (?edges ! r) \<le> t_filt (?tris ! c)"
        unfolding j(4) i(2) by simp
    qed simp_all
    from h1_loop_filt_inv[of ?edges ?tris 0 ?st0 st'] loop inv0 sorted_qsort_tri lt
    have outs: "\<forall>bd\<in>set (out_pairs st'). fst bd \<le> snd bd" by simp
    from assms(3) cnt have k: "k < length (out_pairs st')" by simp
    then have "births ! k = fst (out_pairs st' ! k)" "deaths ! k = snd (out_pairs st' ! k)"
      by (simp_all add: b d memcpy_to_host_def nth_append)
    with outs k show ?thesis by auto
  qed
qed

lemma h1_pairs_death_ge_birth_example:
  "topo_gpu_persistence_h1 (Some [0, 0, 1, 0, 1, 2]) (Some [1, 2, 2, 3, 3, 3]) (Some [1, 2, 3, 4, 5, 6])
       (Some [0, 0, 0, 1]) (Some [1, 1, 2, 2]) (Some [2, 3, 3, 3]) (Some [7, 8, 9, 10]) 6 4
       (Some [0, 0, 0, 0]) (Some [0, 0, 0, 0]) (Some 5) =
     Some (TOPO_SUCCESS, Some [3, 5, 6, 0], Some [7, 8, 9, 0], Some 3) \<and>
   face_filtration_ok [0, 0, 1, 0, 1, 2] [1, 2, 2, 3, 3, 3] [1, 2, 3, 4, 5, 6]
       [0, 0, 0, 1] [1, 1, 2, 2] [2, 3, 3, 3] [7, 8, 9, 10] (nat 6) (nat 4) \<and>
   (1::nat) < nat 3 \<and>
   [3, 5, 6, 0] ! 1 \<le> ([7, 8, 9, 0] ! 1 :: real)"
proof -
  have v: "topo_gpu_persistence_h1 (Some [0, 0, 1, 0, 1, 2]) (Some [1, 2, 2, 3, 3, 3]) (Some [1, 2, 3, 4, 5, 6])
       (Some [0, 0, 0, 1]) (Some [1, 1, 2, 2]) (Some [2, 3, 3, 3]) (Some [7, 8, 9, 10]) 6 4
       (Some [0, 0, 0, 0]) (Some [0, 0, 0, 0]) (Some 5) =
     Some (TOPO_SUCCESS, Some [3, 5, 6, 0], Some [7, 8, 9, 0], Some 3)"
    by code_simp
  have f: "face_filtration_ok [0, 0, 1, 0, 1, 2] [1, 2, 2, 3, 3, 3] [1, 2, 3, 4, 5, 6]
       [0, 0, 0, 1] [1, 1, 2, 2] [2, 3, 3, 3] [7, 8, 9, 10] (nat 6) (nat 4)"
    by code_simp
  have k: "(1::nat) < nat 3" by simp
  from h1_pairs_death_ge_birth[OF v f k] v f k show ?thesis by blast
qed


section \<open>Number of H0 pairs\<close>

text \<open>
  The root of a vertex in the forest of a parent array, without path halving.
\<close>

partial_function (option) uf_root :: "nat list \<Rightarrow> nat \<Rightarrow> nat option" where
  "uf_root par x =
     (if x \<ge> length par then None
      else if par ! x = x then Some x
      else uf_root par (par ! x))"

text \<open>
  The forest invariant: parents are in range and ranks increase strictly towards the root.
\<close>

definition uf_inv :: "nat \<Rightarrow> UnionFind \<Rightarrow> bool" where
  "uf_inv n uf \<longleftrightarrow>
     length (parent uf) = n \<and> length (rank uf) = n \<and> length (birth uf) = n \<and>
     (\<forall>i<n. parent uf ! i < n \<and> (parent uf ! i \<noteq> i \<longrightarrow> rank uf ! i < rank uf ! (parent uf ! i)))"

lemma rank_le_Max: "i < length rk \<Longrightarrow> rk ! i \<le> Max (set rk)"
  by simp

lemma uf_root_exists:
  assumes "uf_inv n uf" "x < n"
  shows "\<exists>r<n. uf_root (parent uf) x = Some r \<and> parent uf ! r = r"
  using assms(2)
proof (induction "Max (set (rank uf)) - rank uf ! x" arbitrary: x rule: less_induct)
  case less
  show ?case
  proof (cases "parent uf ! x = x")
    case True
    with less.prems assms(1) show ?thesis
      by (subst uf_root.simps) (auto simp: uf_inv_def)
  next
    case False
    from assms(1) less.prems False have p: "parent uf ! x < n"
      "rank uf ! x < rank uf ! (parent uf ! x)" by (auto simp: uf_inv_def)
    have "rank uf ! (parent uf ! x) \<le> Max (set (rank uf))"
      using p(1) assms(1) by (intro rank_le_Max) (simp add: uf_inv_def)
    with p(2) have "Max (set (rank uf)) - rank uf ! (parent uf ! x) < Max (set (rank uf)) - rank uf ! x"
      by simp
    from less.hyps[OF this p(1)] obtain r where "r < n" "uf_root (parent uf) (parent uf ! x) = Some r"
      "parent uf ! r = r" by blast
    with False less.prems assms(1) show ?thesis
      by (subst uf_root.simps) (auto simp: uf_inv_def)
  qed
qed

lemma uf_root_of_root: "x < length par \<Longrightarrow> par ! x = x \<Longrightarrow> uf_root par x = Some x"
  by (subst uf_root.simps) simp

lemma uf_root_step: "x < length par \<Longrightarrow> par ! x \<noteq> x \<Longrightarrow> uf_root par x = uf_root par (par ! x)"
  by (subst uf_root.simps) simp

lemma halving_preserves:
  assumes inv: "uf_inv n uf" and x: "x < n" and nx: "parent uf ! x \<noteq> x"
  defines "uf' \<equiv> uf\<lparr>parent := (parent uf)[x := parent uf ! (parent uf ! x)]\<rparr>"
  shows "uf_inv n uf'"
    and "\<forall>y<n. uf_root (parent uf') y = uf_root (parent uf) y"
    and "parent uf' ! x \<noteq> x"
    and "rank uf ! x < rank uf ! (parent uf' ! x)"
proof -
  let ?par = "parent uf" and ?rk = "rank uf"
  let ?p = "?par ! x" and ?gp = "?par ! (?par ! x)"
  from inv x nx have p: "?p < n" "?rk ! x < ?rk ! ?p" by (auto simp: uf_inv_def)
  from inv p(1) have gp: "?gp < n" "?gp \<noteq> ?p \<longrightarrow> ?rk ! ?p < ?rk ! ?gp" by (auto simp: uf_inv_def)
  have rgp: "?rk ! x < ?rk ! ?gp" using p(2) gp(2) by (cases "?gp = ?p") auto
  then have gpx: "?gp \<noteq> x" by auto
  have len: "length ?par = n" using inv by (simp add: uf_inv_def)
  have par': "parent uf' = ?par[x := ?gp]" "rank uf' = ?rk" "birth uf' = birth uf"
    by (simp_all add: uf'_def)
  have px: "parent uf' ! x = ?gp" using x len by (simp add: par')
  show "parent uf' ! x \<noteq> x" using px gpx by simp
  show "rank uf ! x < rank uf ! (parent uf' ! x)" using px rgp by simp
  show inv': "uf_inv n uf'"
    unfolding uf_inv_def par'
  proof (intro conjI allI impI)
    fix i assume i: "i < n"
    show "?par[x := ?gp] ! i < n"
      using i inv gp(1) len by (cases "i = x") (auto simp: uf_inv_def)
    assume "?par[x := ?gp] ! i \<noteq> i"
    then show "?rk ! i < ?rk ! (?par[x := ?gp] ! i)"
      using i inv rgp len by (cases "i = x") (auto simp: uf_inv_def)
  qed (use inv in \<open>auto simp: uf_inv_def\<close>)
  show "\<forall>y<n. uf_root (parent uf') y = uf_root (parent uf) y"
  proof (intro allI impI)
    fix y assume "y < n"
    then show "uf_root (parent uf') y = uf_root (parent uf) y"
    proof (induction "Max (set ?rk) - ?rk ! y" arbitrary: y rule: less_induct)
      case less
      have dec: "Max (set ?rk) - ?rk ! z < Max (set ?rk) - ?rk ! y" if "z < n" "?rk ! y < ?rk ! z" for z
      proof -
        have "?rk ! z \<le> Max (set ?rk)" using that(1) inv by (intro rank_le_Max) (simp add: uf_inv_def)
        with that(2) show ?thesis by simp
      qed
      show ?case
      proof (cases "y = x")
        case True
        have "uf_root (parent uf') x = uf_root (parent uf') ?gp"
          using uf_root_step[of x "parent uf'"] px gpx x len by (simp add: par')
        also have "\<dots> = uf_root ?par ?gp"
          using less.hyps[OF dec[OF gp(1)] gp(1)] rgp True by simp
        also have "\<dots> = uf_root ?par ?p"
        proof (cases "?gp = ?p")
          case True
          then show ?thesis by simp
        next
          case False
          then show ?thesis using uf_root_step[of ?p ?par] p(1) len by simp
        qed
        also have "\<dots> = uf_root ?par x"
          using uf_root_step[of x ?par] x len nx by simp
        finally show ?thesis using True by simp
      next
        case False
        then have same: "parent uf' ! y = ?par ! y" by (simp add: par')
        show ?thesis
        proof (cases "?par ! y = y")
          case True
          then show ?thesis
            using uf_root_of_root[of y ?par] uf_root_of_root[of y "parent uf'"] same less.prems len
            by (simp add: par')
        next
          case ny: False
          from inv less.prems ny have py: "?par ! y < n" "?rk ! y < ?rk ! (?par ! y)"
            by (auto simp: uf_inv_def)
          have "uf_root (parent uf') y = uf_root (parent uf') (?par ! y)"
            using uf_root_step[of y "parent uf'"] same ny less.prems len by (simp add: par')
          also have "\<dots> = uf_root ?par (?par ! y)"
            using less.hyps[OF dec[OF py] py(1)] by simp
          also have "\<dots> = uf_root ?par y"
            using uf_root_step[of y ?par] ny less.prems len by simp
          finally show ?thesis .
        qed
      qed
    qed
  qed
qed

lemma find_correct:
  assumes "uf_inv n uf" "x < n"
  shows "\<exists>r uf'. UnionFind_find uf x = Some (r, uf') \<and> uf_root (parent uf) x = Some r \<and> r < n \<and>
           parent uf' ! r = r \<and> uf_inv n uf' \<and>
           (\<forall>y<n. uf_root (parent uf') y = uf_root (parent uf) y) \<and>
           rank uf' = rank uf \<and> birth uf' = birth uf \<and>
           (\<forall>i<n. parent uf' ! i = i \<longleftrightarrow> parent uf ! i = i)"
  using assms
proof (induction "Max (set (rank uf)) - rank uf ! x" arbitrary: uf x rule: less_induct)
  case less
  note inv = less.prems(1) and x = less.prems(2)
  have len: "length (parent uf) = n" using inv by (simp add: uf_inv_def)
  show ?case
  proof (cases "parent uf ! x = x")
    case True
    have "UnionFind_find uf x = Some (x, uf)"
      using True x len by (subst UnionFind_find.simps) simp
    moreover have "uf_root (parent uf) x = Some x"
      using True x len by (intro uf_root_of_root) auto
    ultimately show ?thesis using inv x True by auto
  next
    case False
    define uf1 where "uf1 = uf\<lparr>parent := (parent uf)[x := parent uf ! (parent uf ! x)]\<rparr>"
    define x1 where "x1 = parent uf1 ! x"
    note hp = halving_preserves[OF inv x False, folded uf1_def]
    from inv x have px: "parent uf ! x < n" by (auto simp: uf_inv_def)
    have f: "UnionFind_find uf x = UnionFind_find uf1 x1"
      using False x px len by (subst UnionFind_find.simps) (simp add: Let_def uf1_def x1_def)
    have rk: "rank uf1 = rank uf" "birth uf1 = birth uf" by (simp_all add: uf1_def)
    have x1n: "x1 < n" using hp(1) x by (auto simp: uf_inv_def x1_def)
    have "rank uf ! x1 \<le> Max (set (rank uf))"
      using x1n inv by (intro rank_le_Max) (simp add: uf_inv_def)
    with hp(4) have "Max (set (rank uf1)) - rank uf1 ! x1 < Max (set (rank uf)) - rank uf ! x"
      by (simp add: rk x1_def)
    from less.hyps[OF this hp(1) x1n] obtain r uf' where
      IH: "UnionFind_find uf1 x1 = Some (r, uf')" "uf_root (parent uf1) x1 = Some r" "r < n"
        "parent uf' ! r = r" "uf_inv n uf'"
        "\<forall>y<n. uf_root (parent uf') y = uf_root (parent uf1) y"
        "rank uf' = rank uf1" "birth uf' = birth uf1"
        "\<forall>i<n. parent uf' ! i = i \<longleftrightarrow> parent uf1 ! i = i"
      by blast
    have len1: "length (parent uf1) = n" using hp(1) by (simp add: uf_inv_def)
    have "uf_root (parent uf) x = uf_root (parent uf1) x" using hp(2) x by simp
    also have "\<dots> = uf_root (parent uf1) x1"
      unfolding x1_def using hp(3) x len1 by (intro uf_root_step) auto
    finally have root: "uf_root (parent uf) x = Some r" using IH(2) by simp
    have roots1: "\<forall>i<n. parent uf1 ! i = i \<longleftrightarrow> parent uf ! i = i"
    proof (intro allI impI)
      fix i assume "i < n"
      show "parent uf1 ! i = i \<longleftrightarrow> parent uf ! i = i"
      proof (cases "i = x")
        case True
        with hp(3) False show ?thesis by simp
      next
        case False
        then show ?thesis by (simp add: uf1_def)
      qed
    qed
    show ?thesis
      using f IH root hp(2) rk roots1 by auto
  qed
qed

lemma link_roots:
  assumes inv: "uf_inv n uf" and ra: "ra < n" "parent uf ! ra = ra"
    and rb: "rb < n" "parent uf ! rb = rb" and ne: "ra \<noteq> rb"
  shows "\<forall>y<n. uf_root ((parent uf)[rb := ra]) y =
           (if uf_root (parent uf) y = Some rb then Some ra else uf_root (parent uf) y)"
proof (intro allI impI)
  let ?par = "parent uf" and ?rk = "rank uf"
  let ?par' = "?par[rb := ra]"
  have len: "length ?par = n" using inv by (simp add: uf_inv_def)
  have ra': "uf_root ?par' ra = Some ra"
    using ra ne len by (intro uf_root_of_root) auto
  fix y assume "y < n"
  then show "uf_root ?par' y = (if uf_root ?par y = Some rb then Some ra else uf_root ?par y)"
  proof (induction "Max (set ?rk) - ?rk ! y" arbitrary: y rule: less_induct)
    case less
    show ?case
    proof (cases "y = rb")
      case True
      have "uf_root ?par' rb = uf_root ?par' ra"
        using uf_root_step[of rb ?par'] rb ne len by simp
      moreover have "uf_root ?par rb = Some rb"
        using rb len by (intro uf_root_of_root) auto
      ultimately show ?thesis using True ra' by simp
    next
      case False
      then have same: "?par' ! y = ?par ! y" by simp
      show ?thesis
      proof (cases "?par ! y = y")
        case True
        have "uf_root ?par y = Some y" using True less.prems len by (intro uf_root_of_root) auto
        moreover have "uf_root ?par' y = Some y"
          using True same less.prems len by (intro uf_root_of_root) auto
        ultimately show ?thesis using False by simp
      next
        case ny: False
        from inv less.prems ny have py: "?par ! y < n" "?rk ! y < ?rk ! (?par ! y)"
          by (auto simp: uf_inv_def)
        have "?rk ! (?par ! y) \<le> Max (set ?rk)"
          using py(1) inv by (intro rank_le_Max) (simp add: uf_inv_def)
        with py(2) have dec: "Max (set ?rk) - ?rk ! (?par ! y) < Max (set ?rk) - ?rk ! y" by simp
        have "uf_root ?par' y = uf_root ?par' (?par ! y)"
          using uf_root_step[of y ?par'] same ny less.prems len by simp
        also have "\<dots> = (if uf_root ?par (?par ! y) = Some rb then Some ra else uf_root ?par (?par ! y))"
          by (rule less.hyps[OF dec py(1)])
        also have "uf_root ?par (?par ! y) = uf_root ?par y"
          using uf_root_step[of y ?par] ny less.prems len by simp
        finally show ?thesis .
      qed
    qed
  qed
qed

lemma link_inv:
  assumes inv: "uf_inv n uf" and ra: "ra < n" "parent uf ! ra = ra"
    and rb: "rb < n" "parent uf ! rb = rb" and ne: "ra \<noteq> rb"
    and rk: "rank uf ! rb \<le> rank uf ! ra"
  defines "uf3 \<equiv> uf\<lparr>parent := (parent uf)[rb := ra]\<rparr>"
  defines "uf4 \<equiv> (if rank uf3 ! ra = rank uf3 ! rb
                   then uf3\<lparr>rank := (rank uf3)[ra := rank uf3 ! ra + 1]\<rparr> else uf3)"
  shows "uf_inv n uf4" and "parent uf4 = (parent uf)[rb := ra]" and "birth uf4 = birth uf"
proof -
  let ?par = "parent uf" and ?rk = "rank uf"
  have len: "length ?par = n" "length ?rk = n" using inv by (simp_all add: uf_inv_def)
  show p4: "parent uf4 = ?par[rb := ra]" by (simp add: uf4_def uf3_def)
  show "birth uf4 = birth uf" by (simp add: uf4_def uf3_def)
  have r4: "rank uf4 = (if ?rk ! ra = ?rk ! rb then ?rk[ra := ?rk ! ra + 1] else ?rk)"
    by (simp add: uf4_def uf3_def)
  have mono: "?rk ! i \<le> rank uf4 ! i" if "i < n" for i
  proof (cases "i = ra")
    case True
    then show ?thesis using len ra by (simp add: r4)
  next
    case False
    then show ?thesis by (simp add: r4)
  qed
  have nra: "\<And>i. i < n \<Longrightarrow> i \<noteq> ra \<Longrightarrow> rank uf4 ! i = ?rk ! i"
    by (auto simp: r4)
  have strict: "rank uf4 ! rb < rank uf4 ! ra"
    using rk ne ra rb len by (auto simp: r4)
  show "uf_inv n uf4"
    unfolding uf_inv_def p4
  proof (intro conjI allI impI)
    fix i assume i: "i < n"
    show "?par[rb := ra] ! i < n"
      using i inv ra(1) len by (cases "i = rb") (auto simp: uf_inv_def)
    assume np: "?par[rb := ra] ! i \<noteq> i"
    show "rank uf4 ! i < rank uf4 ! (?par[rb := ra] ! i)"
    proof (cases "i = rb")
      case True
      with strict rb len show ?thesis by simp
    next
      case False
      with np have np': "?par ! i \<noteq> i" and same: "?par[rb := ra] ! i = ?par ! i" by auto
      from inv i np' have pi: "?par ! i < n" "?rk ! i < ?rk ! (?par ! i)" by (auto simp: uf_inv_def)
      have "i \<noteq> ra" using np' ra by auto
      then have "rank uf4 ! i = ?rk ! i" using i by (rule nra[rotated])
      with pi mono[OF pi(1)] show ?thesis by (simp add: same)
    qed
  qed (use inv len in \<open>auto simp: uf_inv_def r4 \<open>birth uf4 = birth uf\<close>\<close>)
qed

definition link :: "UnionFind \<Rightarrow> nat \<Rightarrow> nat \<Rightarrow> UnionFind" where
  "link uf ra rb =
     (let uf3 = uf\<lparr>parent := (parent uf)[rb := ra]\<rparr>
      in if rank uf3 ! ra = rank uf3 ! rb
         then uf3\<lparr>rank := (rank uf3)[ra := rank uf3 ! ra + 1]\<rparr> else uf3)"

lemma unite_unfold:
  assumes "UnionFind_find uf a = Some (ra, uf1)" "UnionFind_find uf1 b = Some (rb, uf2)"
  shows "ra = rb \<Longrightarrow> UnionFind_unite uf a b f = Some (None, uf2)"
    and "ra \<noteq> rb \<Longrightarrow>
         \<exists>db x y. UnionFind_unite uf a b f = Some (Some (db, f), link uf2 x y) \<and>
           (db = birth uf2 ! ra \<or> db = birth uf2 ! rb) \<and>
           ((x = ra \<and> y = rb) \<or> (x = rb \<and> y = ra)) \<and> rank uf2 ! y \<le> rank uf2 ! x"
proof -
  show "ra = rb \<Longrightarrow> UnionFind_unite uf a b f = Some (None, uf2)"
    using assms by (simp add: UnionFind_unite_def)
  assume ne: "ra \<noteq> rb"
  show "\<exists>db x y. UnionFind_unite uf a b f = Some (Some (db, f), link uf2 x y) \<and>
           (db = birth uf2 ! ra \<or> db = birth uf2 ! rb) \<and>
           ((x = ra \<and> y = rb) \<or> (x = rb \<and> y = ra)) \<and> rank uf2 ! y \<le> rank uf2 ! x"
  proof (cases "birth uf2 ! ra < birth uf2 ! rb")
    case b: True
    show ?thesis
    proof (cases "rank uf2 ! ra < rank uf2 ! rb")
      case True
      with b ne assms have "UnionFind_unite uf a b f = Some (Some (birth uf2 ! rb, f), link uf2 rb ra)"
        by (simp add: UnionFind_unite_def Let_def link_def)
      moreover from True have "rank uf2 ! ra \<le> rank uf2 ! rb" "rank uf2 ! rb \<le> rank uf2 ! ra \<or> True" by simp_all
      ultimately show ?thesis by blast
    next
      case False
      with b ne assms have "UnionFind_unite uf a b f = Some (Some (birth uf2 ! rb, f), link uf2 ra rb)"
        by (simp add: UnionFind_unite_def Let_def link_def)
      moreover from False have "rank uf2 ! rb \<le> rank uf2 ! ra" by simp
      ultimately show ?thesis by blast
    qed
  next
    case b: False
    show ?thesis
    proof (cases "rank uf2 ! rb < rank uf2 ! ra")
      case True
      with b ne assms have "UnionFind_unite uf a b f = Some (Some (birth uf2 ! ra, f), link uf2 ra rb)"
        by (simp add: UnionFind_unite_def Let_def link_def)
      moreover from True have "rank uf2 ! rb \<le> rank uf2 ! ra" by simp
      ultimately show ?thesis by blast
    next
      case False
      with b ne assms have "UnionFind_unite uf a b f = Some (Some (birth uf2 ! ra, f), link uf2 rb ra)"
        by (simp add: UnionFind_unite_def Let_def link_def)
      moreover from False have "rank uf2 ! ra \<le> rank uf2 ! rb" by simp
      ultimately show ?thesis by blast
    qed
  qed
qed

definition roots :: "nat \<Rightarrow> UnionFind \<Rightarrow> nat set" where
  "roots n uf = {i. i < n \<and> parent uf ! i = i}"

lemma unite_correct:
  assumes inv: "uf_inv n uf" and a: "a < n" and b: "b < n"
  obtains (same) uf' where
      "UnionFind_unite uf a b f = Some (None, uf')"
      "uf_root (parent uf) a = uf_root (parent uf) b"
      "uf_inv n uf'" "birth uf' = birth uf"
      "\<forall>y<n. uf_root (parent uf') y = uf_root (parent uf) y"
      "roots n uf' = roots n uf"
  | (merge) uf' db ra rb R where
      "UnionFind_unite uf a b f = Some (Some (db, f), uf')"
      "uf_root (parent uf) a = Some ra" "uf_root (parent uf) b = Some rb" "ra \<noteq> rb"
      "db \<in> set (birth uf)" "uf_inv n uf'" "birth uf' = birth uf"
      "\<forall>y<n. uf_root (parent uf') y =
          (if uf_root (parent uf) y = Some ra \<or> uf_root (parent uf) y = Some rb
           then Some R else uf_root (parent uf) y)"
      "card (roots n uf') + 1 = card (roots n uf)" "R = ra \<or> R = rb"
proof -
  from find_correct[OF inv a] obtain ra uf1 where
    f1: "UnionFind_find uf a = Some (ra, uf1)" "uf_root (parent uf) a = Some ra" "ra < n"
      "parent uf1 ! ra = ra" "uf_inv n uf1"
      "\<forall>y<n. uf_root (parent uf1) y = uf_root (parent uf) y"
      "rank uf1 = rank uf" "birth uf1 = birth uf"
      "\<forall>i<n. parent uf1 ! i = i \<longleftrightarrow> parent uf ! i = i"
    by blast
  from find_correct[OF f1(5) b] obtain rb uf2 where
    f2: "UnionFind_find uf1 b = Some (rb, uf2)" "uf_root (parent uf1) b = Some rb" "rb < n"
      "parent uf2 ! rb = rb" "uf_inv n uf2"
      "\<forall>y<n. uf_root (parent uf2) y = uf_root (parent uf1) y"
      "rank uf2 = rank uf1" "birth uf2 = birth uf1"
      "\<forall>i<n. parent uf2 ! i = i \<longleftrightarrow> parent uf1 ! i = i"
    by blast
  have rootb: "uf_root (parent uf) b = Some rb" using f1(6) f2(2) b by simp
  have r2: "\<forall>y<n. uf_root (parent uf2) y = uf_root (parent uf) y" using f1(6) f2(6) by simp
  have rs2: "roots n uf2 = roots n uf" using f1(9) f2(9) by (auto simp: roots_def)
  have b2: "birth uf2 = birth uf" using f1(8) f2(8) by simp
  have ra2: "parent uf2 ! ra = ra" using f1(3,4) f2(9) by simp
  have lb: "length (birth uf2) = n" using f2(5) by (simp add: uf_inv_def)
  show thesis
  proof (cases "ra = rb")
    case True
    from unite_unfold(1)[OF f1(1) f2(1) True]
    have "UnionFind_unite uf a b f = Some (None, uf2)" .
    then show thesis
      using True f1(2) rootb f2(5) b2 r2 rs2 by (intro same[of uf2]) auto
  next
    case False
    from unite_unfold(2)[OF f1(1) f2(1) False, of f] obtain db x y where
      u: "UnionFind_unite uf a b f = Some (Some (db, f), link uf2 x y)"
      and db: "db = birth uf2 ! ra \<or> db = birth uf2 ! rb"
      and xy: "(x = ra \<and> y = rb) \<or> (x = rb \<and> y = ra)"
      and rk: "rank uf2 ! y \<le> rank uf2 ! x"
      by blast
    from xy f1(3) f2(3,4) ra2 False have x: "x < n" "parent uf2 ! x = x"
      and y: "y < n" "parent uf2 ! y = y" and ne: "x \<noteq> y"
      by auto
    note li = link_inv[OF f2(5) x y ne rk, folded link_def[unfolded Let_def]]
    have dbin: "db \<in> set (birth uf)"
      using db f1(3) f2(3) lb b2 by (auto intro: nth_mem)
    have rt: "\<forall>z<n. uf_root (parent (link uf2 x y)) z =
          (if uf_root (parent uf) z = Some ra \<or> uf_root (parent uf) z = Some rb
           then Some x else uf_root (parent uf) z)"
    proof (intro allI impI)
      fix z assume z: "z < n"
      from link_roots[OF f2(5) x y ne] z
      have "uf_root ((parent uf2)[y := x]) z =
              (if uf_root (parent uf2) z = Some y then Some x else uf_root (parent uf2) z)" by simp
      then show "uf_root (parent (link uf2 x y)) z =
          (if uf_root (parent uf) z = Some ra \<or> uf_root (parent uf) z = Some rb
           then Some x else uf_root (parent uf) z)"
        using xy r2 z by (auto simp: li(2))
    qed
    have "roots n (link uf2 x y) = roots n uf2 - {y}"
      using x y ne f2(5) by (auto simp: roots_def li(2) uf_inv_def nth_list_update)
    moreover have "y \<in> roots n uf2" using y by (simp add: roots_def)
    moreover have "finite (roots n uf2)" by (simp add: roots_def)
    ultimately have "card (roots n (link uf2 x y)) + 1 = card (roots n uf2)"
      using card_Suc_Diff1[of "roots n uf2" y] by simp
    then have cr: "card (roots n (link uf2 x y)) + 1 = card (roots n uf)" by (simp add: rs2)
    show thesis
      by (rule merge[OF u f1(2) rootb False dbin li(1) _ rt cr]) (use xy in \<open>auto simp: li(3) b2\<close>)
  qed
qed

definition conn :: "(nat \<times> nat) set \<Rightarrow> (nat \<times> nat) set" where
  "conn S = (S \<union> S\<inverse>)\<^sup>*"

lemma conn_refl [simp]: "(x, x) \<in> conn S"
  by (simp add: conn_def)

lemma conn_sym: "(x, y) \<in> conn S \<Longrightarrow> (y, x) \<in> conn S"
proof -
  have "sym (S \<union> S\<inverse>)" by (auto simp: sym_def)
  then have "sym ((S \<union> S\<inverse>)\<^sup>*)" by (rule sym_rtrancl)
  then show "(x, y) \<in> conn S \<Longrightarrow> (y, x) \<in> conn S"
    by (auto simp: conn_def sym_def)
qed

lemma conn_trans: "(x, y) \<in> conn S \<Longrightarrow> (y, z) \<in> conn S \<Longrightarrow> (x, z) \<in> conn S"
  by (auto simp: conn_def)

lemma conn_insert:
  "(x, y) \<in> conn (insert (a, b) S) \<longleftrightarrow>
     (x, y) \<in> conn S \<or> ((x, a) \<in> conn S \<and> (b, y) \<in> conn S) \<or> ((x, b) \<in> conn S \<and> (a, y) \<in> conn S)"
proof -
  let ?r = "S \<union> S\<inverse>"
  have e: "insert (a, b) S \<union> (insert (a, b) S)\<inverse> = insert (a, b) (insert (b, a) ?r)" by auto
  have r1: "(insert (b, a) ?r)\<^sup>* = ?r\<^sup>* \<union> {(x, y). (x, b) \<in> ?r\<^sup>* \<and> (a, y) \<in> ?r\<^sup>*}"
    by (rule rtrancl_insert)
  have r2: "(insert (a, b) (insert (b, a) ?r))\<^sup>* =
      (insert (b, a) ?r)\<^sup>* \<union> {(x, y). (x, a) \<in> (insert (b, a) ?r)\<^sup>* \<and> (b, y) \<in> (insert (b, a) ?r)\<^sup>*}"
    by (rule rtrancl_insert)
  have m1: "(u, v) \<in> (insert (b, a) ?r)\<^sup>* \<longleftrightarrow>
              (u, v) \<in> conn S \<or> ((u, b) \<in> conn S \<and> (a, v) \<in> conn S)" for u v
    unfolding r1 by (simp add: conn_def)
  have m2: "(x, y) \<in> conn (insert (a, b) S) \<longleftrightarrow>
              (x, y) \<in> (insert (b, a) ?r)\<^sup>* \<or>
              ((x, a) \<in> (insert (b, a) ?r)\<^sup>* \<and> (b, y) \<in> (insert (b, a) ?r)\<^sup>*)"
    unfolding conn_def[of "insert (a, b) S"] e r2 by simp
  show ?thesis
  proof
    assume "(x, y) \<in> conn (insert (a, b) S)"
    then consider "(x, y) \<in> conn S" | "(x, b) \<in> conn S" "(a, y) \<in> conn S"
      | "(x, a) \<in> conn S" "(b, y) \<in> conn S"
      | "(x, a) \<in> conn S" "(b, b) \<in> conn S" "(a, y) \<in> conn S"
      | "(x, b) \<in> conn S" "(a, a) \<in> conn S" "(b, y) \<in> conn S"
      | "(x, b) \<in> conn S" "(a, a) \<in> conn S" "(b, b) \<in> conn S" "(a, y) \<in> conn S"
      unfolding m2 m1 by blast
    then show "(x, y) \<in> conn S \<or> ((x, a) \<in> conn S \<and> (b, y) \<in> conn S) \<or>
                 ((x, b) \<in> conn S \<and> (a, y) \<in> conn S)"
    proof cases
      case 4
      then have "(x, y) \<in> conn S" by (blast intro: conn_trans)
      then show ?thesis by simp
    next
      case 5
      then have "(x, y) \<in> conn S" by (blast intro: conn_trans)
      then show ?thesis by simp
    qed simp_all
  next
    assume "(x, y) \<in> conn S \<or> ((x, a) \<in> conn S \<and> (b, y) \<in> conn S) \<or>
                 ((x, b) \<in> conn S \<and> (a, y) \<in> conn S)"
    then show "(x, y) \<in> conn (insert (a, b) S)"
      unfolding m2 m1 by blast
  qed
qed

text \<open>
  The union-find forest represents the connectivity of the edges processed so far; the
  number of components is the number of roots.
\<close>

definition part_inv :: "nat \<Rightarrow> UnionFind \<Rightarrow> (nat \<times> nat) set \<Rightarrow> bool" where
  "part_inv n uf S \<longleftrightarrow>
     (\<forall>x<n. \<forall>y<n. uf_root (parent uf) x = uf_root (parent uf) y \<longleftrightarrow> (x, y) \<in> conn S)"

definition ncomp :: "nat \<Rightarrow> (nat \<times> nat) set \<Rightarrow> nat" where
  "ncomp n S = card ((\<lambda>x. {y. y < n \<and> (x, y) \<in> conn S}) ` {0..<n})"

lemma num_components_ncomp: "num_components n es = ncomp n (set es)"
  by (simp add: num_components_def component_def ncomp_def conn_def)

lemma ncomp_roots:
  assumes inv: "uf_inv n uf" and pi: "part_inv n uf S"
  shows "ncomp n S = card (roots n uf)"
proof -
  define C where "C x = {y. y < n \<and> (x, y) \<in> conn S}" for x
  let ?root = "uf_root (parent uf)"
  have len: "length (parent uf) = n" using inv by (simp add: uf_inv_def)
  have pz: "?root u = ?root v \<longleftrightarrow> (u, v) \<in> conn S" if "u < n" "v < n" for u v
    using pi that unfolding part_inv_def by blast
  have rr: "?root r = Some r" if "r \<in> roots n uf" for r
  proof -
    from that have "r < length (parent uf)" "parent uf ! r = r" by (simp_all add: roots_def len)
    then show ?thesis by (rule uf_root_of_root)
  qed
  have rn: "r < n" if "r \<in> roots n uf" for r using that by (simp add: roots_def)
  have Cmem: "y \<in> C x \<longleftrightarrow> y < n \<and> (x, y) \<in> conn S" for x y by (simp add: C_def)
  have sub1: "C ` {0..<n} \<subseteq> C ` roots n uf"
  proof
    fix c assume "c \<in> C ` {0..<n}"
    then obtain x where x: "x < n" and c: "c = C x" by auto
    from uf_root_exists[OF inv x] obtain r where r: "r < n" "?root x = Some r" "parent uf ! r = r"
      by blast
    then have rin: "r \<in> roots n uf" by (simp add: roots_def)
    have "?root x = ?root r" using r(2) rr[OF rin] by simp
    then have xr: "(x, r) \<in> conn S" using pz[OF x r(1)] by simp
    have rx: "(r, x) \<in> conn S" using xr by (rule conn_sym)
    have "(x, y) \<in> conn S \<longleftrightarrow> (r, y) \<in> conn S" for y
      using conn_trans[OF xr, of y] conn_trans[OF rx, of y] by blast
    then have "C x = C r" by (simp add: C_def)
    then have "c = C r" using c by simp
    then show "c \<in> C ` roots n uf" using rin by (rule image_eqI)
  qed
  have sub2: "roots n uf \<subseteq> {0..<n}" by (auto simp: roots_def)
  have img: "C ` {0..<n} = C ` roots n uf"
    using sub1 image_mono[OF sub2, of C] by (rule equalityI)
  have inj: "inj_on C (roots n uf)"
  proof (rule inj_onI)
    fix r r' assume r: "r \<in> roots n uf" and r': "r' \<in> roots n uf" and eq: "C r = C r'"
    have "r' \<in> C r'" using rn[OF r'] by (simp add: Cmem)
    then have "r' \<in> C r" using eq by simp
    then have "(r, r') \<in> conn S" by (simp add: Cmem)
    then have "?root r = ?root r'" using pz[OF rn[OF r] rn[OF r']] by simp
    then have "Some r = Some r'" unfolding rr[OF r] rr[OF r'] .
    then show "r = r'" by simp
  qed
  have Ceq: "C = (\<lambda>x. {y. y < n \<and> (x, y) \<in> conn S})" by (rule ext) (simp add: C_def)
  have "ncomp n S = card (C ` {0..<n})" by (simp only: ncomp_def Ceq)
  also have "\<dots> = card (roots n uf)" unfolding img using inj by (rule card_image)
  finally show ?thesis .
qed

lemma part_inv_same:
  assumes "part_inv n uf S" "a < n" "b < n"
    and "uf_root (parent uf) a = uf_root (parent uf) b"
    and "\<forall>y<n. uf_root (parent uf') y = uf_root (parent uf) y"
  shows "part_inv n uf' (insert (a, b) S)"
proof -
  from assms(1-4) have ab: "(a, b) \<in> conn S" by (simp add: part_inv_def)
  have ba: "(b, a) \<in> conn S" using ab by (rule conn_sym)
  have "(x, y) \<in> conn (insert (a, b) S) \<longleftrightarrow> (x, y) \<in> conn S" for x y
  proof
    assume "(x, y) \<in> conn (insert (a, b) S)"
    then consider "(x, y) \<in> conn S" | "(x, a) \<in> conn S" "(b, y) \<in> conn S"
      | "(x, b) \<in> conn S" "(a, y) \<in> conn S"
      unfolding conn_insert by blast
    then show "(x, y) \<in> conn S"
    proof cases
      case 2
      from conn_trans[OF 2(1) ab] 2(2) show ?thesis by (rule conn_trans)
    next
      case 3
      from conn_trans[OF 3(1) ba] 3(2) show ?thesis by (rule conn_trans)
    qed
  next
    assume "(x, y) \<in> conn S"
    then show "(x, y) \<in> conn (insert (a, b) S)" by (simp add: conn_insert)
  qed
  with assms(1,5) show ?thesis by (simp add: part_inv_def)
qed

lemma part_inv_merge:
  assumes inv: "uf_inv n uf" and pi: "part_inv n uf S" and a: "a < n" and b: "b < n"
    and ra: "uf_root (parent uf) a = Some ra" and rb: "uf_root (parent uf) b = Some rb"
    and R: "R = ra \<or> R = rb"
    and rt: "\<forall>y<n. uf_root (parent uf') y =
          (if uf_root (parent uf) y = Some ra \<or> uf_root (parent uf) y = Some rb
           then Some R else uf_root (parent uf) y)"
  shows "part_inv n uf' (insert (a, b) S)"
  unfolding part_inv_def
proof (intro allI impI)
  fix x y assume x: "x < n" and y: "y < n"
  let ?root = "uf_root (parent uf)"
  define A where "A z \<longleftrightarrow> ?root z = Some ra \<or> ?root z = Some rb" for z
  have pz: "?root u = ?root v \<longleftrightarrow> (u, v) \<in> conn S" if "u < n" "v < n" for u v
    using pi that unfolding part_inv_def by blast
  have za: "?root z = Some ra \<longleftrightarrow> (z, a) \<in> conn S" if "z < n" for z
    using pz[OF that a] ra by simp
  have zb: "?root z = Some rb \<longleftrightarrow> (z, b) \<in> conn S" if "z < n" for z
    using pz[OF that b] rb by simp
  have Ax: "A x \<longleftrightarrow> (x, a) \<in> conn S \<or> (x, b) \<in> conn S" using za[OF x] zb[OF x] by (simp add: A_def)
  have Ay: "A y \<longleftrightarrow> (y, a) \<in> conn S \<or> (y, b) \<in> conn S" using za[OF y] zb[OF y] by (simp add: A_def)
  have xy: "?root x = ?root y \<longleftrightarrow> (x, y) \<in> conn S" by (rule pz[OF x y])
  have rx: "uf_root (parent uf') x = (if A x then Some R else ?root x)" using rt x by (simp add: A_def)
  have ry: "uf_root (parent uf') y = (if A y then Some R else ?root y)" using rt y by (simp add: A_def)
  have RA: "?root z = Some R \<Longrightarrow> A z" for z using R by (auto simp: A_def)
  have Atrans: "A v" if "A u" "(u, v) \<in> conn S" "u < n" "v < n" for u v
  proof -
    from that(2) have "?root u = ?root v" using pz[OF that(3,4)] by simp
    with that(1) show ?thesis by (simp add: A_def)
  qed
  have Aa: "A a" using ra by (simp add: A_def)
  have Ab: "A b" using rb by (simp add: A_def)
  note ci = conn_insert[of x y a b S]
  show "uf_root (parent uf') x = uf_root (parent uf') y \<longleftrightarrow> (x, y) \<in> conn (insert (a, b) S)"
  proof (cases "A x")
    case ax: True
    show ?thesis
    proof (cases "A y")
      case ay: True
      from ax ay consider "(x, a) \<in> conn S" "(y, a) \<in> conn S" | "(x, a) \<in> conn S" "(y, b) \<in> conn S"
        | "(x, b) \<in> conn S" "(y, a) \<in> conn S" | "(x, b) \<in> conn S" "(y, b) \<in> conn S"
        unfolding Ax Ay by blast
      then have "(x, y) \<in> conn (insert (a, b) S)"
      proof cases
        case 1
        from 1(2) have "(a, y) \<in> conn S" by (rule conn_sym)
        with 1(1) have "(x, y) \<in> conn S" by (rule conn_trans)
        then show ?thesis by (simp add: ci)
      next
        case 2
        then have "(b, y) \<in> conn S" by (simp add: conn_sym)
        with 2 show ?thesis by (simp add: ci)
      next
        case 3
        then have "(a, y) \<in> conn S" by (simp add: conn_sym)
        with 3 show ?thesis by (simp add: ci)
      next
        case 4
        from 4(2) have "(b, y) \<in> conn S" by (rule conn_sym)
        with 4(1) have "(x, y) \<in> conn S" by (rule conn_trans)
        then show ?thesis by (simp add: ci)
      qed
      with ax ay show ?thesis by (simp add: rx ry)
    next
      case ay: False
      have "(x, y) \<notin> conn (insert (a, b) S)"
      proof
        assume "(x, y) \<in> conn (insert (a, b) S)"
        then consider "(x, y) \<in> conn S" | "(b, y) \<in> conn S" | "(a, y) \<in> conn S"
          unfolding ci by blast
        then have "A y"
        proof cases
          case 1
          show ?thesis by (rule Atrans[OF ax 1 x y])
        next
          case 2
          show ?thesis by (rule Atrans[OF Ab 2 b y])
        next
          case 3
          show ?thesis by (rule Atrans[OF Aa 3 a y])
        qed
        with ay show False by simp
      qed
      moreover have "Some R \<noteq> ?root y" using RA[of y] ay by auto
      ultimately show ?thesis using ax ay by (simp add: rx ry)
    qed
  next
    case ax: False
    have notx: "(x, a) \<notin> conn S" "(x, b) \<notin> conn S" using ax unfolding Ax by simp_all
    show ?thesis
    proof (cases "A y")
      case ay: True
      have "(x, y) \<notin> conn (insert (a, b) S)"
      proof
        assume "(x, y) \<in> conn (insert (a, b) S)"
        with notx have "(x, y) \<in> conn S" unfolding ci by blast
        then have "(y, x) \<in> conn S" by (rule conn_sym)
        from Atrans[OF ay this y x] have "A x" .
        with ax show False by simp
      qed
      moreover have "?root x \<noteq> Some R" using RA[of x] ax by auto
      ultimately show ?thesis using ax ay by (simp add: rx ry)
    next
      case ay: False
      have "(x, y) \<in> conn (insert (a, b) S) \<longleftrightarrow> (x, y) \<in> conn S"
        using notx unfolding ci by blast
      with ax ay xy show ?thesis by (simp add: rx ry)
    qed
  qed
qed

lemma h0_loop_count:
  assumes "uf_inv n uf" "part_inv n uf S" "\<forall>e\<in>set es. src e < n \<and> dst e < n"
  shows "\<exists>out'. h0_loop uf es out = Some out' \<and> length out \<le> length out' \<and>
           (length out' - length out) + ncomp n (S \<union> (\<lambda>e. (src e, dst e)) ` set es) \<le> card (roots n uf) \<and>
           ((\<forall>e\<in>set es. filt e \<notin> set (birth uf)) \<longrightarrow>
              (length out' - length out) + ncomp n (S \<union> (\<lambda>e. (src e, dst e)) ` set es) = card (roots n uf))"
  using assms
proof (induction es arbitrary: uf S out)
  case Nil
  then show ?case using ncomp_roots[of n uf S] by simp
next
  case (Cons e es)
  let ?a = "src e" and ?b = "dst e"
  let ?P = "\<lambda>es. (\<lambda>e. (src e, dst e)) ` set es"
  from Cons.prems(3) have a: "?a < n" and b: "?b < n"
    and rest: "\<forall>e\<in>set es. src e < n \<and> dst e < n" by auto
  have S': "insert (?a, ?b) S \<union> ?P es = S \<union> ?P (e # es)" by auto
  from Cons.prems(1) a b show ?case
  proof (cases rule: unite_correct[where f = "filt e"])
    case (same uf')
    from part_inv_same[OF Cons.prems(2) a b same(2) same(5)]
    have pi': "part_inv n uf' (insert (?a, ?b) S)" .
    from Cons.IH[OF same(3) pi' rest, of out] obtain out' where
      IH: "h0_loop uf' es out = Some out'" "length out \<le> length out'"
        "(length out' - length out) + ncomp n (insert (?a, ?b) S \<union> ?P es) \<le> card (roots n uf')"
        "(\<forall>e\<in>set es. filt e \<notin> set (birth uf')) \<longrightarrow>
           (length out' - length out) + ncomp n (insert (?a, ?b) S \<union> ?P es) = card (roots n uf')"
      by blast
    have l: "h0_loop uf (e # es) out = Some out'" using same(1) IH(1) by simp
    show ?thesis
      using l IH(2,3,4) unfolding S' same(4) same(6) by auto
  next
    case (merge uf' db ra rb R)
    from part_inv_merge[OF Cons.prems(1,2) a b merge(2,3) merge(10) merge(8)]
    have pi': "part_inv n uf' (insert (?a, ?b) S)" .
    define out1 where "out1 = (if db \<noteq> filt e then out @ [(db, filt e)] else out)"
    from Cons.IH[OF merge(6) pi' rest, of out1] obtain out' where
      IH: "h0_loop uf' es out1 = Some out'" "length out1 \<le> length out'"
        "(length out' - length out1) + ncomp n (insert (?a, ?b) S \<union> ?P es) \<le> card (roots n uf')"
        "(\<forall>e\<in>set es. filt e \<notin> set (birth uf')) \<longrightarrow>
           (length out' - length out1) + ncomp n (insert (?a, ?b) S \<union> ?P es) = card (roots n uf')"
      by blast
    have l: "h0_loop uf (e # es) out = Some out'"
      using merge(1) IH(1) by (cases "db = filt e") (simp_all add: out1_def)
    have l1: "length out \<le> length out1" "length out1 \<le> length out + 1" by (simp_all add: out1_def)
    have le: "length out \<le> length out'" using l1 IH(2) by simp
    have bound: "(length out' - length out) + ncomp n (S \<union> ?P (e # es)) \<le> card (roots n uf)"
      using IH(2,3) l1 merge(9) unfolding S' by linarith
    have eq: "(length out' - length out) + ncomp n (S \<union> ?P (e # es)) = card (roots n uf)"
      if ns: "\<forall>e\<in>set (e # es). filt e \<notin> set (birth uf)"
    proof -
      from ns merge(5) have "db \<noteq> filt e" by auto
      then have l2: "length out1 = length out + 1" by (simp add: out1_def)
      from ns have "\<forall>e\<in>set es. filt e \<notin> set (birth uf')" by (simp add: merge(7))
      with IH(4) have "(length out' - length out1) + ncomp n (insert (?a, ?b) S \<union> ?P es) = card (roots n uf')"
        by blast
      then show ?thesis using IH(2) l2 merge(9) unfolding S' by linarith
    qed
    show ?thesis using l le bound eq by blast
  qed
qed

text \<open>
  The undirected edges of an input, the range check on their end points, and the condition
  that no edge filtration equals a vertex filtration.
\<close>

definition edge_list :: "nat list \<Rightarrow> nat list \<Rightarrow> nat \<Rightarrow> (nat \<times> nat) list" where
  "edge_list es ed m = map (\<lambda>i. (es ! i, ed ! i)) [0..<m]"

definition edges_in_range :: "nat list \<Rightarrow> nat list \<Rightarrow> nat \<Rightarrow> nat \<Rightarrow> bool" where
  "edges_in_range es ed n m = list_all (\<lambda>i. es ! i < n \<and> ed ! i < n) [0..<m]"

definition no_equal_filtration :: "real list \<Rightarrow> real list \<Rightarrow> nat \<Rightarrow> nat \<Rightarrow> bool" where
  "no_equal_filtration ef vf n m = list_all (\<lambda>i. list_all (\<lambda>j. ef ! i \<noteq> vf ! j) [0..<n]) [0..<m]"

lemma init_inv: "uf_inv n (UnionFind_init n vf)"
  by (simp add: uf_inv_def UnionFind_init_def)

lemma init_root: "x < n \<Longrightarrow> uf_root (parent (UnionFind_init n vf)) x = Some x"
  by (rule uf_root_of_root) (simp_all add: UnionFind_init_def)

lemma conn_empty: "(x, y) \<in> conn {} \<longleftrightarrow> x = y"
  by (simp add: conn_def)

lemma init_part_inv: "part_inv n (UnionFind_init n vf) {}"
  by (simp add: part_inv_def init_root conn_empty)

lemma init_roots: "card (roots n (UnionFind_init n vf)) = n"
proof -
  have "roots n (UnionFind_init n vf) = {0..<n}"
    by (auto simp: roots_def UnionFind_init_def)
  then show ?thesis by simp
qed

lemma ncomp_pos: "0 < n \<Longrightarrow> 0 < ncomp n S"
  by (simp add: ncomp_def card_gt_0_iff)

text \<open>
  Claim C4, as the code has it. For \<open>n > 0\<close> vertices and \<open>m \<ge> 0\<close> edges with end points
  below \<open>n\<close>, the call returns; a merge whose dying birth equals the edge filtration is not
  recorded, so the number of pairs is at most \<open>n\<close> minus the number of connected components,
  hence at most \<open>n - 1\<close>, and it equals \<open>n\<close> minus the number of components when no edge
  filtration equals a vertex filtration.
\<close>

theorem h0_pair_count_bound:
  assumes "0 < n" and "0 \<le> m" and "host_malloc_ok env"
    and "edges_in_range es ed (nat n) (nat m)"
  shows "\<exists>births deaths c.
           topo_gpu_persistence_h0 env (Some vf) (Some es) (Some ed) (Some ef) n m
               (Some ob) (Some od) (Some oc) = Some (TOPO_SUCCESS, Some births, Some deaths, Some c) \<and>
           0 \<le> c \<and>
           c + int (num_components (nat n) (edge_list es ed (nat m))) \<le> n \<and>
           c \<le> n - 1 \<and>
           (no_equal_filtration ef vf (nat n) (nat m) \<longrightarrow>
              c = n - int (num_components (nat n) (edge_list es ed (nat m))))"
proof -
  let ?n = "nat n" and ?m = "nat m"
  let ?edges = "map (\<lambda>i. \<lparr>filt = ef ! i, src = es ! i, dst = ed ! i\<rparr>) [0..<?m]"
  let ?sorted = "h0_sorted_edges env ?edges"
  let ?uf = "UnionFind_init ?n vf"
  let ?P = "\<lambda>es. (\<lambda>e. (src e, dst e)) ` set es"
  have ss: "set ?sorted = set ?edges" by (simp add: h0_sorted_edges_qsort)
  have rng: "\<forall>e\<in>set ?sorted. src e < ?n \<and> dst e < ?n"
    unfolding ss using assms(4) by (auto simp: edges_in_range_def list_all_iff)
  from h0_loop_count[OF init_inv init_part_inv rng, of vf "[]"] obtain pairs where
    loop: "h0_loop ?uf ?sorted [] = Some pairs"
    and bound: "length pairs + ncomp ?n ({} \<union> ?P ?sorted) \<le> card (roots ?n ?uf)"
    and eq: "(\<forall>e\<in>set ?sorted. filt e \<notin> set (birth ?uf)) \<longrightarrow>
               length pairs + ncomp ?n ({} \<union> ?P ?sorted) = card (roots ?n ?uf)"
    by auto
  have P: "{} \<union> ?P ?sorted = set (edge_list es ed ?m)"
    unfolding ss by (simp add: edge_list_def image_image)
  have nc: "ncomp ?n ({} \<union> ?P ?sorted) = num_components ?n (edge_list es ed ?m)"
    unfolding P by (simp add: num_components_ncomp)
  have b1: "length pairs + num_components ?n (edge_list es ed ?m) \<le> ?n"
    using bound unfolding nc init_roots .
  have pos: "0 < num_components ?n (edge_list es ed ?m)"
    unfolding num_components_ncomp using assms(1) by (intro ncomp_pos) simp
  have e1: "length pairs + num_components ?n (edge_list es ed ?m) = ?n"
    if "no_equal_filtration ef vf ?n ?m"
  proof -
    have "\<forall>e\<in>set ?sorted. filt e \<notin> set (birth ?uf)"
      unfolding ss using that
      by (auto simp: no_equal_filtration_def list_all_iff UnionFind_init_def)
    with eq show ?thesis unfolding nc init_roots by blast
  qed
  show ?thesis
  proof (cases "m = 0")
    case True
    have "edge_list es ed ?m = []" using True by (simp add: edge_list_def)
    moreover have "num_components ?n [] = ?n"
      using ncomp_roots[OF init_inv init_part_inv, of ?n vf] by (simp add: num_components_ncomp init_roots)
    moreover have "topo_gpu_persistence_h0 env (Some vf) (Some es) (Some ed) (Some ef) n m
               (Some ob) (Some od) (Some oc) = Some (TOPO_SUCCESS, Some ob, Some od, Some 0)"
      using True assms(1) by (simp add: topo_gpu_persistence_h0_def)
    ultimately show ?thesis using assms(1) by auto
  next
    case False
    have call: "topo_gpu_persistence_h0 env (Some vf) (Some es) (Some ed) (Some ef) n m
               (Some ob) (Some od) (Some oc) =
             Some (TOPO_SUCCESS, Some (memcpy_to_host ob (map fst pairs) (length pairs)),
                   Some (memcpy_to_host od (map snd pairs) (length pairs)), Some (int (length pairs)))"
      using False assms(1,2,3) loop by (simp add: topo_gpu_persistence_h0_def Let_def)
    have c1: "int (length pairs) + int (num_components ?n (edge_list es ed ?m)) \<le> n"
      using b1 assms(1) by linarith
    have c2: "int (length pairs) \<le> n - 1" using c1 pos by linarith
    have c3: "no_equal_filtration ef vf ?n ?m \<longrightarrow>
                int (length pairs) = n - int (num_components ?n (edge_list es ed ?m))"
      using e1 assms(1) by auto
    show ?thesis using call c1 c2 c3 by auto
  qed
qed

text \<open>
  Two vertices with filtrations 0 and 1 joined by an edge of filtration 1: one component,
  and no pair, since the dying birth 1 equals the death 1.
\<close>

lemma two_vertices_one_component: "num_components 2 [(0, 1)] = 1"
proof -
  let ?R = "(set [(0::nat, 1::nat)] \<union> (set [(0, 1)])\<inverse>)\<^sup>*"
  have e01: "(0, 1) \<in> ?R" and e10: "(1, 0) \<in> ?R" by auto
  have c0: "component 2 [(0, 1)] 0 = {0, 1}"
  proof (intro equalityI subsetI)
    fix y assume "y \<in> component 2 [(0, 1)] 0"
    then have "y < 2" by (simp add: component_def)
    then show "y \<in> {0, 1}" by auto
  next
    fix y :: nat assume "y \<in> {0, 1}"
    then show "y \<in> component 2 [(0, 1)] 0" using e01 by (auto simp: component_def)
  qed
  have c1: "component 2 [(0, 1)] 1 = {0, 1}"
  proof (intro equalityI subsetI)
    fix y assume "y \<in> component 2 [(0, 1)] 1"
    then have "y < 2" by (simp add: component_def)
    then show "y \<in> {0, 1}" by auto
  next
    fix y :: nat assume "y \<in> {0, 1}"
    then show "y \<in> component 2 [(0, 1)] 1" using e10 by (auto simp: component_def)
  qed
  have "{0..<2::nat} = {0, 1}" by auto
  then have "component 2 [(0, 1)] ` {0..<2} = {{0, 1}}" using c0 c1 by simp
  then show ?thesis by (simp add: num_components_def)
qed

theorem h0_count_below_component_formula:
  "topo_gpu_persistence_h0 ideal_env (Some [0, 1]) (Some [0]) (Some [1]) (Some [1]) 2 1
       (Some [0]) (Some [0]) (Some 7) = Some (TOPO_SUCCESS, Some [0], Some [0], Some 0) \<and>
   num_components 2 [(0, 1)] = 1 \<and>
   (0::int) \<noteq> 2 - int (num_components 2 [(0, 1)])"
proof -
  have "topo_gpu_persistence_h0 ideal_env (Some [0, 1]) (Some [0]) (Some [1]) (Some [1]) 2 1
       (Some [0]) (Some [0]) (Some 7) = Some (TOPO_SUCCESS, Some [0], Some [0], Some 0)"
    by code_simp
  moreover note two_vertices_one_component
  moreover have "(0::int) \<noteq> 2 - int (num_components 2 [(0, 1)])"
    unfolding two_vertices_one_component by simp
  ultimately show ?thesis by blast
qed

theorem h0_pair_count_bound_witness:
  "(0::int) < 4 \<and> (0::int) \<le> 3 \<and> host_malloc_ok ideal_env \<and>
   edges_in_range [0, 2, 3] [1, 0, 0] (nat 4) (nat 3) \<and>
   no_equal_filtration [10, 11, 12] [3, 2, 1, 3 / 2] (nat 4) (nat 3) \<and>
   topo_gpu_persistence_h0 ideal_env (Some [3, 2, 1, 3 / 2]) (Some [0, 2, 3]) (Some [1, 0, 0])
       (Some [10, 11, 12]) 4 3 (Some [0, 0, 0]) (Some [0, 0, 0]) (Some 0) =
     Some (TOPO_SUCCESS, Some [3, 2, 2], Some [10, 11, 12], Some 3) \<and>
   (3::int) \<le> 4 - 1 \<and>
   (3::int) = 4 - int (num_components (nat 4) (edge_list [0, 2, 3] [1, 0, 0] (nat 3)))"
proof -
  have h: "(0::int) < 4" "(0::int) \<le> 3" "host_malloc_ok ideal_env"
    by (simp_all add: ideal_env_def)
  have r: "edges_in_range [0, 2, 3] [1, 0, 0] (nat 4) (nat 3)" by code_simp
  have q: "no_equal_filtration [10, 11, 12] [3, 2, 1, 3 / 2] (nat 4) (nat 3)" by code_simp
  have v: "topo_gpu_persistence_h0 ideal_env (Some [3, 2, 1, 3 / 2]) (Some [0, 2, 3]) (Some [1, 0, 0])
       (Some [10, 11, 12]) 4 3 (Some [0, 0, 0]) (Some [0, 0, 0]) (Some 0) =
     Some (TOPO_SUCCESS, Some [3, 2, 2], Some [10, 11, 12], Some 3)"
    by code_simp
  from h0_pair_count_bound[OF h r, of "[3, 2, 1, 3 / 2]" "[10, 11, 12]" "[0, 0, 0]" "[0, 0, 0]" 0]
  obtain births deaths c where
    c: "topo_gpu_persistence_h0 ideal_env (Some [3, 2, 1, 3 / 2]) (Some [0, 2, 3]) (Some [1, 0, 0])
       (Some [10, 11, 12]) 4 3 (Some [0, 0, 0]) (Some [0, 0, 0]) (Some 0) =
         Some (TOPO_SUCCESS, Some births, Some deaths, Some c)"
    and b: "c \<le> 4 - 1"
    and e: "no_equal_filtration [10, 11, 12] [3, 2, 1, 3 / 2] (nat 4) (nat 3) \<longrightarrow>
              c = 4 - int (num_components (nat 4) (edge_list [0, 2, 3] [1, 0, 0] (nat 3)))"
    by blast
  from c v have "c = 3" by simp
  with b e q have "(3::int) \<le> 4 - 1"
    "(3::int) = 4 - int (num_components (nat 4) (edge_list [0, 2, 3] [1, 0, 0] (nat 3)))"
    by auto
  with h r q v show ?thesis by blast
qed

end
